theory Spec2Isabelle
  imports
    Complex_Main
    "HOL-Library.AList"
    "HOL-Library.Char_ord"
    "HOL-Library.List_Lexorder"
    "HOL-Library.Sublist"
begin

section \<open>Field presence analysis of FLEX reports: scripts/analyze_field_presence.py\<close>

text \<open>
  The script reads a document, extracts the self-closing elements of a tag name with two
  regular expressions (\<^verbatim>\<open>extract_elements\<close>), tallies per attribute how often it is
  present and non-empty (\<^verbatim>\<open>analyze_fields\<close>), and sorts the attributes into three
  buckets (\<^verbatim>\<open>categorize_fields\<close>).

  Conventions of the embedding.
  \<^item> A Python \<^verbatim>\<open>str\<close> is a \<^typ>\<open>string\<close>; a \<^typ>\<open>char\<close> is a code point below 256.
    Documents with other code points are outside the model.
  \<^item> A Python \<^verbatim>\<open>dict\<close> is an association list in insertion order; \<^verbatim>\<open>d[k] = v\<close> is
    \<^const>\<open>AList.update\<close>, which overwrites in place or appends.
  \<^item> A Python \<^verbatim>\<open>int\<close> is an \<^typ>\<open>int\<close>. A Python \<^verbatim>\<open>float\<close> is a \<^typ>\<open>rat\<close>: the
    percentages are computed exactly, the rounding of double arithmetic is not modelled.
  \<^item> A raised exception is the left summand of the result.
\<close>

subsection \<open>Character classes of the \<^verbatim>\<open>re\<close> module\<close>

text \<open>
  \<^verbatim>\<open>\s\<close> of a \<^verbatim>\<open>str\<close> pattern is \<^verbatim>\<open>str.isspace\<close>: below 256 these are the code points
  9 to 13, 28 to 32, 133 and 160. \<^verbatim>\<open>str.strip()\<close> removes the same characters.
\<close>

definition is_space :: "char \<Rightarrow> bool" where
  "is_space c =
     (let n = (of_char c :: nat)
      in (9 \<le> n \<and> n \<le> 13) \<or> (28 \<le> n \<and> n \<le> 32) \<or> n = 133 \<or> n = 160)"

text \<open>
  \<^verbatim>\<open>\w\<close> of a \<^verbatim>\<open>str\<close> pattern is an alphanumeric character or the underscore. Below 256
  the alphanumerics are the ASCII digits and letters and the Latin-1 letters, superscript
  digits and fractions.
\<close>

definition is_word :: "char \<Rightarrow> bool" where
  "is_word c =
     (let n = (of_char c :: nat)
      in (48 \<le> n \<and> n \<le> 57) \<or> (65 \<le> n \<and> n \<le> 90) \<or> n = 95 \<or> (97 \<le> n \<and> n \<le> 122)
         \<or> n = 170 \<or> n = 178 \<or> n = 179 \<or> n = 181 \<or> n = 185 \<or> n = 186
         \<or> (188 \<le> n \<and> n \<le> 190) \<or> (192 \<le> n \<and> n \<le> 214)
         \<or> (216 \<le> n \<and> n \<le> 246) \<or> (248 \<le> n \<and> n \<le> 255))"

datatype cclass = Space | Word | Not char

fun in_class :: "cclass \<Rightarrow> char \<Rightarrow> bool" where
  "in_class Space c = is_space c"
| "in_class Word c = is_word c"
| "in_class (Not x) c = (c \<noteq> x)"

subsection \<open>A backtracking matcher for the two patterns\<close>

text \<open>
  Both patterns of the script are sequences of literals and of repeated character classes,
  greedy or lazy, some of them captured:
  \<^verbatim>\<open><NAME\s+([^>]*?)\s*/>\<close> and \<^verbatim>\<open>(\w+)="([^"]*)"\<close>.
  \<^term>\<open>Rep c lo q\<close> is the class \<open>c\<close> repeated at least \<open>lo\<close> times; \<^term>\<open>Cap c lo q\<close> is the
  same inside a capturing group.
\<close>

datatype quant = Greedy | Lazy

datatype item = Lit string | Rep cclass nat quant | Cap cclass nat quant

text \<open>The longest run of the class at the head of the subject.\<close>

definition run :: "cclass \<Rightarrow> string \<Rightarrow> nat" where
  "run c s = length (takeWhile (in_class c) s)"

text \<open>
  The repetition counts in the order the engine tries them: a greedy quantifier starts with
  the longest run and gives characters back, a lazy one starts with the fewest and takes more.
\<close>

fun counts :: "quant \<Rightarrow> nat \<Rightarrow> nat \<Rightarrow> nat list" where
  "counts Greedy lo hi = rev [lo..<Suc hi]"
| "counts Lazy lo hi = [lo..<Suc hi]"

fun first_some :: "'a option list \<Rightarrow> 'a option" where
  "first_some [] = None"
| "first_some (Some x # _) = Some x"
| "first_some (None # r) = first_some r"

text \<open>
  \<open>match_here p s\<close> anchors the pattern at the head of \<open>s\<close>. The result is that of the first
  successful path of the backtracking search: the captured groups and the text after the
  match.
\<close>

fun match_here :: "item list \<Rightarrow> string \<Rightarrow> (string list \<times> string) option" where
  "match_here [] s = Some ([], s)"
| "match_here (Lit l # p) s =
     (if take (length l) s = l then match_here p (drop (length l) s) else None)"
| "match_here (Rep c lo q # p) s =
     first_some (map (\<lambda>k. match_here p (drop k s)) (counts q lo (run c s)))"
| "match_here (Cap c lo q # p) s =
     first_some
       (map (\<lambda>k. map_option (\<lambda>(g, t). (take k s # g, t)) (match_here p (drop k s)))
          (counts q lo (run c s)))"

text \<open>
  \<open>scan p s\<close> is the left-to-right search of \<^verbatim>\<open>re.finditer\<close>: every match is reported with
  the suffix of the subject at which it starts and with its groups, and the search resumes
  after the match. The two patterns of the script never match the empty string, so the
  branch for a match that consumed nothing is not reached; it advances one character.
\<close>

function scan :: "item list \<Rightarrow> string \<Rightarrow> (string \<times> string list) list" where
  "scan p s =
     (case match_here p s of
        Some (g, t) \<Rightarrow>
          (s, g) # (if length t < length s then scan p t
                    else (case s of [] \<Rightarrow> [] | _ # s' \<Rightarrow> scan p s'))
      | None \<Rightarrow> (case s of [] \<Rightarrow> [] | _ # s' \<Rightarrow> scan p s'))"
  by pat_completeness auto
termination
  by (relation "measure (\<lambda>(p, s). length s)") auto

declare scan.simps [simp del]

text \<open>\<^verbatim>\<open>m.group(n)\<close> of a match.\<close>

definition group :: "nat \<Rightarrow> string \<times> string list \<Rightarrow> string" where
  "group n m = snd m ! (n - 1)"

subsection \<open>\<^verbatim>\<open>extract_elements\<close>\<close>

text \<open>
  The element name is spliced into the pattern. For a name of word characters, as the four
  names of \<^verbatim>\<open>main\<close> are, the splice is a literal.
\<close>

definition element_pattern :: "string \<Rightarrow> item list" where
  "element_pattern element_name =
     [Lit (CHR ''<'' # element_name), Rep Space 1 Greedy, Cap (Not CHR ''>'') 0 Lazy,
      Rep Space 0 Greedy, Lit ''/>'']"

definition attr_pattern :: "item list" where
  "attr_pattern =
     [Cap Word 1 Greedy, Lit [CHR ''='', CHR 0x22], Cap (Not (CHR 0x22)) 0 Greedy,
      Lit [CHR 0x22]]"

text \<open>The inner loop: the dictionary of the \<^verbatim>\<open>name="value"\<close> pairs of one matched element.\<close>

definition attrs_of :: "string \<Rightarrow> (string \<times> string) list" where
  "attrs_of m =
     fold (\<lambda>attr_match attrs. AList.update (group 1 attr_match) (group 2 attr_match) attrs)
       (scan attr_pattern m) []"

definition extract_elements :: "string \<Rightarrow> string \<Rightarrow> (string \<times> string) list list" where
  "extract_elements xml_content element_name =
     map (\<lambda>m. attrs_of (group 1 m)) (scan (element_pattern element_name) xml_content)"

subsection \<open>\<^verbatim>\<open>analyze_fields\<close>\<close>

datatype py_error = ZeroDivisionError

text \<open>Python's true division \<^verbatim>\<open>a / b\<close> of two integers.\<close>

definition py_div :: "int \<Rightarrow> int \<Rightarrow> py_error + rat" where
  "py_div a b = (if b = 0 then Inl ZeroDivisionError else Inr (of_int a / of_int b))"

text \<open>\<^verbatim>\<open>value.strip()\<close>\<close>

definition strip :: "string \<Rightarrow> string" where
  "strip v = rev (dropWhile is_space (rev (dropWhile is_space v)))"

text \<open>
  The entry of \<^verbatim>\<open>field_stats\<close> for one field. The \<^verbatim>\<open>set\<close> of sample values is held as
  the list of its members in the order they were added. The order in which Python iterates
  over a set of strings depends on their hashes and is no function of the program text, so
  \<^verbatim>\<open>list(s)\<close> takes that order as a parameter: a function from the members to a listing of
  them.
\<close>

record field_stat =
  fs_present :: int
  fs_non_empty :: int
  sample_values :: "string list"

type_synonym set_order = "string list \<Rightarrow> string list"

definition set_add :: "string \<Rightarrow> string list \<Rightarrow> string list" where
  "set_add x s = (if x \<in> set s then s else s @ [x])"

definition new_stat :: field_stat where
  "new_stat = \<lparr>fs_present = 0, fs_non_empty = 0, sample_values = []\<rparr>"

text \<open>\<^verbatim>\<open>field_stats[field]\<close> of the \<^verbatim>\<open>defaultdict\<close>.\<close>

definition lookup_default :: "(string \<times> field_stat) list \<Rightarrow> string \<Rightarrow> field_stat" where
  "lookup_default field_stats field =
     (case map_of field_stats field of None \<Rightarrow> new_stat | Some st \<Rightarrow> st)"

text \<open>The body of the inner loop, on the entry of the field.\<close>

definition count_value :: "string \<Rightarrow> field_stat \<Rightarrow> field_stat" where
  "count_value v st =
     (let st1 = st\<lparr>fs_present := fs_present st + 1\<rparr>
      in if v \<noteq> [] \<and> strip v \<noteq> [] then
           (let st2 = st1\<lparr>fs_non_empty := fs_non_empty st1 + 1\<rparr>
            in if int (length (sample_values st2)) < 5
               then st2\<lparr>sample_values := set_add (take 50 v) (sample_values st2)\<rparr>
               else st2)
         else st1)"

definition tally_elem ::
  "(string \<times> string) list \<Rightarrow> (string \<times> field_stat) list \<Rightarrow> (string \<times> field_stat) list" where
  "tally_elem elem field_stats =
     fold (\<lambda>(field, v) fs. AList.update field (count_value v (lookup_default fs field)) fs)
       elem field_stats"

definition tally :: "(string \<times> string) list list \<Rightarrow> (string \<times> field_stat) list" where
  "tally elements = fold tally_elem elements []"

record field_result =
  present :: int
  present_pct :: rat
  non_empty :: int
  non_empty_pct :: rat
  samples :: "string list"

text \<open>
  The second loop. Its body computes the entry of \<^verbatim>\<open>results\<close> for one field; the
  conditional expression divides only when the field was present.
\<close>

definition result_entry :: "set_order \<Rightarrow> int \<Rightarrow> field_stat \<Rightarrow> py_error + field_result" where
  "result_entry so total' stats =
     (case py_div (fs_present stats) total' of
        Inl e \<Rightarrow> Inl e
      | Inr q \<Rightarrow>
          (case (if fs_present stats > 0
                 then (case py_div (fs_non_empty stats) total' of
                         Inl e \<Rightarrow> Inl e
                       | Inr q' \<Rightarrow> Inr (q' * 100))
                 else Inr 0) of
             Inl e \<Rightarrow> Inl e
           | Inr pct_non_empty \<Rightarrow>
               Inr \<lparr>present = fs_present stats,
                    present_pct = q * 100,
                    non_empty = fs_non_empty stats,
                    non_empty_pct = pct_non_empty,
                    samples = take 3 (so (sample_values stats))\<rparr>))"

fun percentages ::
  "set_order \<Rightarrow> int \<Rightarrow> (string \<times> field_stat) list \<Rightarrow> (string \<times> field_result) list
     \<Rightarrow> py_error + (string \<times> field_result) list" where
  "percentages so total' [] results = Inr results"
| "percentages so total' ((field, stats) # rest) results =
     (case result_entry so total' stats of
        Inl e \<Rightarrow> Inl e
      | Inr r \<Rightarrow> percentages so total' rest (AList.update field r results))"

definition analyze_fields ::
  "set_order \<Rightarrow> (string \<times> string) list list \<Rightarrow> py_error + (string \<times> field_result) list" where
  "analyze_fields so elements =
     (let total' = int (length elements)
      in if total' = 0 then Inr [] else percentages so total' (tally elements) [])"

subsection \<open>\<^verbatim>\<open>categorize_fields\<close>\<close>

text \<open>
  \<^verbatim>\<open>sorted(results.items())\<close> orders the pairs by field name, the names of a dictionary
  being distinct; Python compares strings by code point, as the lexicographic order on
  \<^typ>\<open>string\<close> does. The literal \<^verbatim>\<open>99.9\<close> is the rational \<open>999/10\<close>.
\<close>

fun categorize_loop ::
  "(string \<times> field_result) list
     \<Rightarrow> (string \<times> field_result) list \<times> (string \<times> field_result) list \<times> (string \<times> field_result) list
     \<Rightarrow> (string \<times> field_result) list \<times> (string \<times> field_result) list \<times> (string \<times> field_result) list"
  where
  "categorize_loop [] (always, sometimes, rarely) = (always, sometimes, rarely)"
| "categorize_loop ((field, stats) # rest) (always, sometimes, rarely) =
     (let pct = non_empty_pct stats
      in if pct \<ge> 999 / 10 then categorize_loop rest (always @ [(field, stats)], sometimes, rarely)
         else if pct \<ge> 50 then categorize_loop rest (always, sometimes @ [(field, stats)], rarely)
         else categorize_loop rest (always, sometimes, rarely @ [(field, stats)]))"

definition categorize_fields ::
  "(string \<times> field_result) list \<Rightarrow> int
     \<Rightarrow> (string \<times> field_result) list \<times> (string \<times> field_result) list \<times> (string \<times> field_result) list"
  where
  "categorize_fields results total' = categorize_loop (sort_key fst results) ([], [], [])"

subsection \<open>The report of \<^verbatim>\<open>main\<close>\<close>

text \<open>
  Every \<^verbatim>\<open>print\<close> is one entry of the output. A row of a category is kept as the data it
  shows: the formatting of the percentage is not modelled.
\<close>

datatype printed = Line string | Row string rat int int "string list"

fun show_nat :: "nat \<Rightarrow> string" where
  "show_nat n =
     (if n < 10 then [char_of (48 + n)] else show_nat (n div 10) @ [char_of (48 + n mod 10)])"

declare show_nat.simps [simp del]

definition print_category :: "string \<Rightarrow> (string \<times> field_result) list \<Rightarrow> int \<Rightarrow> printed list" where
  "print_category name fields' total' =
     [Line (CHR 0x0A # replicate 60 CHR ''=''),
      Line (name @ '' ('' @ show_nat (length fields') @ '' fields)''),
      Line (replicate 60 CHR ''='')]
     @ map (\<lambda>(field, stats).
              Row field (non_empty_pct stats) (non_empty stats) total' (take 2 (samples stats)))
         fields'"

text \<open>
  The body of the loop over the element types: what it prints, and the exception that ended
  it, if any.
\<close>

definition report_type :: "set_order \<Rightarrow> string \<Rightarrow> string \<Rightarrow> printed list \<times> py_error option" where
  "report_type so xml_content elem_type =
     (let header =
            [Line (CHR 0x0A # CHR 0x0A # replicate 60 CHR ''#''),
             Line (''# '' @ elem_type),
             Line (replicate 60 CHR ''#'')];
          elements = extract_elements xml_content elem_type;
          total' = length elements;
          found = [Line (''Found '' @ show_nat total' @ '' '' @ elem_type @ '' elements'')]
      in if total' = 0 then (header @ found, None)
         else (case analyze_fields so elements of
                 Inl e \<Rightarrow> (header @ found, Some e)
               | Inr results \<Rightarrow>
                   (case categorize_fields results (int total') of
                      (always, sometimes, rarely) \<Rightarrow>
                        (header @ found
                         @ print_category
                             ''ALWAYS PRESENT (>=99.9% non-empty) - Can be non-optional''
                             always (int total')
                         @ print_category
                             ''SOMETIMES PRESENT (50-99%) - Conditional or truly optional''
                             sometimes (int total')
                         @ print_category ''RARELY PRESENT (<50%) - Truly optional''
                             rarely (int total'),
                         None))))"

fun main_loop :: "set_order \<Rightarrow> string \<Rightarrow> string list \<Rightarrow> printed list \<times> py_error option" where
  "main_loop so xml_content [] = ([], None)"
| "main_loop so xml_content (elem_type # rest) =
     (case report_type so xml_content elem_type of
        (out, Some e) \<Rightarrow> (out, Some e)
      | (out, None) \<Rightarrow>
          (case main_loop so xml_content rest of (out', err) \<Rightarrow> (out @ out', err)))"

definition element_types :: "string list" where
  "element_types = [''Trade'', ''OpenPosition'', ''CashTransaction'', ''CorporateAction'']"

subsection \<open>Vocabulary of the properties\<close>

text \<open>A dictionary has every key once.\<close>

definition is_dict :: "(string \<times> 'v) list \<Rightarrow> bool" where
  "is_dict d = distinct (map fst d)"

text \<open>An occurrence contains the attribute; it contains it with a value that is not blank.\<close>

definition has_field :: "string \<Rightarrow> (string \<times> string) list \<Rightarrow> bool" where
  "has_field f e = (f \<in> set (map fst e))"

definition has_value :: "string \<Rightarrow> (string \<times> string) list \<Rightarrow> bool" where
  "has_value f e = (case map_of e f of None \<Rightarrow> False | Some v \<Rightarrow> strip v \<noteq> [])"

text \<open>The values of an attribute over the occurrences, in the order of the occurrences.\<close>

definition field_values :: "string \<Rightarrow> (string \<times> string) list list \<Rightarrow> string list" where
  "field_values f elements = List.map_filter (\<lambda>e. map_of e f) elements"

text \<open>The distinct members of a list in the order of their first occurrence.\<close>

definition first_seen :: "'a list \<Rightarrow> 'a list" where
  "first_seen xs = rev (remdups (rev xs))"

text \<open>
  What is known of the iteration order of a set: it lists every member once.
\<close>

definition set_iteration :: "set_order \<Rightarrow> bool" where
  "set_iteration so = (\<forall>s. distinct s \<longrightarrow> distinct (so s) \<and> set (so s) = set s)"

text \<open>
  Documents of self-closing elements. An element is its name, the white space after the
  name, and its attributes, each a name, a value and the white space after the closing
  quote. Between the elements there is text without an opening angle bracket.
\<close>

datatype node = Text string | Elem string string "(string \<times> string \<times> string) list"

fun render_attr :: "string \<times> string \<times> string \<Rightarrow> string" where
  "render_attr (k, v, sp) = k @ [CHR ''='', CHR 0x22] @ v @ [CHR 0x22] @ sp"

fun render :: "node \<Rightarrow> string" where
  "render (Text s) = s"
| "render (Elem name gap attrs) =
     CHR ''<'' # name @ gap @ concat (map render_attr attrs) @ ''/>''"

definition render_doc :: "node list \<Rightarrow> string" where
  "render_doc doc = concat (map render doc)"

fun wf_attr :: "string \<times> string \<times> string \<Rightarrow> bool" where
  "wf_attr (k, v, sp) =
     (k \<noteq> [] \<and> list_all is_word k
      \<and> list_all (\<lambda>c. c \<noteq> CHR 0x22 \<and> c \<noteq> CHR ''<'' \<and> c \<noteq> CHR ''>'') v
      \<and> list_all is_space sp)"

fun wf_node :: "node \<Rightarrow> bool" where
  "wf_node (Text s) = list_all (\<lambda>c. c \<noteq> CHR ''<'') s"
| "wf_node (Elem name gap attrs) =
     (list_all is_word name \<and> gap \<noteq> [] \<and> list_all is_space gap \<and> list_all wf_attr attrs)"

fun named :: "string \<Rightarrow> node \<Rightarrow> bool" where
  "named t (Text s) = False"
| "named t (Elem name gap attrs) = (name = t)"

text \<open>
  The text the element pattern captures from an element: its attributes without the white
  space before the closing.
\<close>

fun captured :: "node \<Rightarrow> string" where
  "captured (Text s) = []"
| "captured (Elem name gap attrs) =
     rev (dropWhile is_space (rev (concat (map render_attr attrs))))"

text \<open>The document of the scenario.\<close>

definition scenario_doc :: string where
  \<open>scenario_doc = ''<Trade id="1" qty="10" /><Trade id="2" qty="" /><Trade id="3" />''\<close>

text \<open>The occurrences of the scenario, as the extractor returns them.\<close>

definition scenario_elements :: "(string \<times> string) list list" where
  "scenario_elements =
     [[(''id'', ''1''), (''qty'', ''10'')], [(''id'', ''2''), (''qty'', '''')], [(''id'', ''3'')]]"

section \<open>Properties\<close>

subsection \<open>The scenario\<close>

text \<open>
  C1. On the scenario document, requested for \<^verbatim>\<open>Trade\<close>, the extractor returns three
  occurrences; the aggregator gives \<^verbatim>\<open>id\<close> present 3, non-empty 3, 100 percent, and
  \<^verbatim>\<open>qty\<close> present 2, non-empty 1, a third of 100 percent, which is 33.3 to one decimal;
  the categorization puts \<^verbatim>\<open>id\<close> in the first bucket (always) and \<^verbatim>\<open>qty\<close> in the third
  (rarely). This holds whatever the iteration order of the sample sets.
\<close>

theorem scenario_trade:
  "extract_elements scenario_doc ''Trade''
     = [[(''id'', ''1''), (''qty'', ''10'')], [(''id'', ''2''), (''qty'', '''')], [(''id'', ''3'')]]
   \<and> analyze_fields so (extract_elements scenario_doc ''Trade'')
     = Inr [(''id'', \<lparr>present = 3, present_pct = 100, non_empty = 3, non_empty_pct = 100,
                      samples = take 3 (so [''1'', ''2'', ''3''])\<rparr>),
            (''qty'', \<lparr>present = 2, present_pct = 200 / 3, non_empty = 1, non_empty_pct = 100 / 3,
                       samples = take 3 (so [''10''])\<rparr>)]
   \<and> categorize_fields
         [(''id'', \<lparr>present = 3, present_pct = 100, non_empty = 3, non_empty_pct = 100,
                      samples = take 3 (so [''1'', ''2'', ''3''])\<rparr>),
          (''qty'', \<lparr>present = 2, present_pct = 200 / 3, non_empty = 1, non_empty_pct = 100 / 3,
                       samples = take 3 (so [''10''])\<rparr>)] 3
     = ([(''id'', \<lparr>present = 3, present_pct = 100, non_empty = 3, non_empty_pct = 100,
                      samples = take 3 (so [''1'', ''2'', ''3''])\<rparr>)],
        [],
        [(''qty'', \<lparr>present = 2, present_pct = 200 / 3, non_empty = 1, non_empty_pct = 100 / 3,
                       samples = take 3 (so [''10''])\<rparr>)])
   \<and> \<bar>(100 / 3 :: rat) - 333 / 10\<bar> < 1 / 20"
  unfolding scenario_doc_def
  by code_simp

subsection \<open>The aggregator\<close>

lemma tally_elem_Nil: "tally_elem [] fs = fs"
  by (simp add: tally_elem_def)

lemma tally_elem_Cons:
  "tally_elem ((k, v) # e) fs
     = tally_elem e (AList.update k (count_value v (lookup_default fs k)) fs)"
  by (simp add: tally_elem_def)

lemma lookup_default_update:
  "lookup_default (AList.update k x fs) f = (if f = k then x else lookup_default fs f)"
  by (simp add: lookup_default_def update_conv')

lemma tally_elem_lookup:
  "distinct (map fst e) \<Longrightarrow>
   lookup_default (tally_elem e fs) f
     = (case map_of e f of None \<Rightarrow> lookup_default fs f
        | Some v \<Rightarrow> count_value v (lookup_default fs f))"
proof (induction e arbitrary: fs)
  case Nil
  show ?case by (simp add: tally_elem_Nil)
next
  case (Cons kv e)
  obtain k v where kv: "kv = (k, v)" by (cases kv)
  from Cons.prems kv have d: "distinct (map fst e)" and nk: "k \<notin> fst ` set e" by auto
  from nk have none: "map_of e k = None" by (simp add: map_of_eq_None_iff)
  show ?case
    unfolding kv tally_elem_Cons Cons.IH [OF d]
    by (auto simp: lookup_default_update none split: option.splits)
qed

lemma tally_elem_dom:
  "fst ` set (tally_elem e fs) = fst ` set fs \<union> fst ` set e"
proof (induction e arbitrary: fs)
  case Nil
  show ?case by (simp add: tally_elem_Nil)
next
  case (Cons kv e)
  obtain k v where kv: "kv = (k, v)" by (cases kv)
  show ?case unfolding kv tally_elem_Cons Cons.IH
    by (auto simp: dom_update)
qed

lemma tally_elem_distinct:
  "distinct (map fst fs) \<Longrightarrow> distinct (map fst (tally_elem e fs))"
proof (induction e arbitrary: fs)
  case Nil
  then show ?case by (simp add: tally_elem_Nil)
next
  case (Cons kv e)
  obtain k v where kv: "kv = (k, v)" by (cases kv)
  show ?case unfolding kv tally_elem_Cons
    by (rule Cons.IH) (simp add: distinct_update Cons.prems)
qed

lemma field_values_Nil: "field_values f [] = []"
  by (simp add: field_values_def)

lemma field_values_Cons:
  "field_values f (e # es)
     = (case map_of e f of None \<Rightarrow> field_values f es | Some v \<Rightarrow> v # field_values f es)"
  by (simp add: field_values_def split: option.splits)

lemma fold_tally_lookup:
  "list_all is_dict elements \<Longrightarrow>
   lookup_default (fold tally_elem elements fs) f
     = fold count_value (field_values f elements) (lookup_default fs f)"
proof (induction elements arbitrary: fs)
  case Nil
  show ?case by (simp add: field_values_Nil)
next
  case (Cons e es)
  from Cons.prems have d: "distinct (map fst e)" by (simp add: is_dict_def)
  from Cons.prems have r: "list_all is_dict es" by simp
  show ?case
    by (simp add: Cons.IH [OF r] tally_elem_lookup [OF d] field_values_Cons split: option.splits)
qed

lemma fold_tally_dom:
  "fst ` set (fold tally_elem elements fs) = fst ` set fs \<union> (\<Union>e\<in>set elements. fst ` set e)"
  by (induction elements arbitrary: fs) (auto simp: tally_elem_dom)

lemma fold_tally_distinct:
  "distinct (map fst fs) \<Longrightarrow> distinct (map fst (fold tally_elem elements fs))"
  by (induction elements arbitrary: fs) (auto simp: tally_elem_distinct)

lemma count_value_present: "fs_present (count_value v st) = fs_present st + 1"
  by (simp add: count_value_def Let_def)

lemma count_value_non_empty:
  "fs_non_empty (count_value v st) = fs_non_empty st + (if strip v \<noteq> [] then 1 else 0)"
  by (auto simp add: count_value_def Let_def strip_def)

lemma fold_count_present:
  "fs_present (fold count_value vs st) = fs_present st + int (length vs)"
  by (induction vs arbitrary: st) (simp_all add: count_value_present)

lemma fold_count_non_empty:
  "fs_non_empty (fold count_value vs st)
     = fs_non_empty st + int (length (filter (\<lambda>v. strip v \<noteq> []) vs))"
  by (induction vs arbitrary: st) (simp_all add: count_value_non_empty)

lemma has_field_iff: "has_field f e \<longleftrightarrow> map_of e f \<noteq> None"
  by (simp add: has_field_def map_of_eq_None_iff)

lemma length_field_values:
  "length (field_values f elements) = length (filter (has_field f) elements)"
  by (induction elements)
     (auto simp: field_values_Nil field_values_Cons has_field_iff split: option.splits)

lemma length_nonblank_field_values:
  "length (filter (\<lambda>v. strip v \<noteq> []) (field_values f elements))
     = length (filter (has_value f) elements)"
  by (induction elements)
     (auto simp: field_values_Nil field_values_Cons has_value_def split: option.splits)

lemma result_entry_ok:
  assumes "total' \<noteq> 0"
  shows "result_entry so total' st
           = Inr \<lparr>present = fs_present st,
                  present_pct = of_int (fs_present st) / of_int total' * 100,
                  non_empty = fs_non_empty st,
                  non_empty_pct =
                    (if fs_present st > 0 then of_int (fs_non_empty st) / of_int total' * 100 else 0),
                  samples = take 3 (so (sample_values st))\<rparr>"
  using assms by (simp add: result_entry_def py_div_def)

lemma percentages_ok:
  assumes "total' \<noteq> 0" and "distinct (map fst st)"
  shows "\<exists>res. percentages so total' st acc = Inr res
           \<and> (\<forall>f. map_of res f
                  = (case map_of st f of None \<Rightarrow> map_of acc f
                     | Some s \<Rightarrow> (case result_entry so total' s of Inl e \<Rightarrow> None | Inr r \<Rightarrow> Some r)))
           \<and> (distinct (map fst acc) \<longrightarrow> distinct (map fst res))"
  using assms(2)
proof (induction st arbitrary: acc)
  case Nil
  show ?case by simp
next
  case (Cons fs st)
  obtain k s where fs: "fs = (k, s)" by (cases fs)
  from Cons.prems fs have d: "distinct (map fst st)" and nk: "map_of st k = None"
    by (auto simp: map_of_eq_None_iff)
  obtain r where r: "result_entry so total' s = Inr r"
    using result_entry_ok [OF assms(1)] by blast
  from Cons.IH [OF d, of "AList.update k r acc"]
  obtain res where res: "percentages so total' st (AList.update k r acc) = Inr res"
    and m: "\<And>f. map_of res f
                  = (case map_of st f of None \<Rightarrow> map_of (AList.update k r acc) f
                     | Some s \<Rightarrow> (case result_entry so total' s of Inl e \<Rightarrow> None | Inr r \<Rightarrow> Some r))"
    and dd: "distinct (map fst (AList.update k r acc)) \<longrightarrow> distinct (map fst res)"
    by blast
  have "percentages so total' (fs # st) acc = Inr res"
    by (simp add: fs r res)
  moreover have "map_of res f
                  = (case map_of (fs # st) f of None \<Rightarrow> map_of acc f
                     | Some s \<Rightarrow> (case result_entry so total' s of Inl e \<Rightarrow> None | Inr r \<Rightarrow> Some r))" for f
    using nk by (auto simp: m fs r update_conv' split: option.splits)
  moreover have "distinct (map fst acc) \<longrightarrow> distinct (map fst res)"
    using dd by (simp add: distinct_update)
  ultimately show ?case by blast
qed

lemma tally_map_of:
  assumes "list_all is_dict elements"
  shows "map_of (tally elements) f
           = (if field_values f elements = [] then None
              else Some (fold count_value (field_values f elements) new_stat))"
proof -
  have l: "lookup_default (tally elements) f = fold count_value (field_values f elements) new_stat"
    unfolding tally_def using fold_tally_lookup [OF assms, of "[]" f]
    by (simp add: lookup_default_def)
  have "map_of (tally elements) f = None \<longleftrightarrow> (\<forall>e\<in>set elements. map_of e f = None)"
    unfolding tally_def map_of_eq_None_iff fold_tally_dom by auto
  also have "\<dots> \<longleftrightarrow> field_values f elements = []"
    by (induction elements) (auto simp: field_values_Nil field_values_Cons split: option.splits)
  finally have n: "map_of (tally elements) f = None \<longleftrightarrow> field_values f elements = []" .
  show ?thesis
  proof (cases "field_values f elements = []")
    case True
    with n show ?thesis by simp
  next
    case False
    with n obtain s where s: "map_of (tally elements) f = Some s" by auto
    with l have "s = fold count_value (field_values f elements) new_stat"
      by (simp add: lookup_default_def)
    with s False show ?thesis by simp
  qed
qed

lemma tally_distinct: "distinct (map fst (tally elements))"
  unfolding tally_def by (rule fold_tally_distinct) simp

lemma analyze_fields_entries:
  assumes "elements \<noteq> []" and "list_all is_dict elements"
  shows "\<exists>results. analyze_fields so elements = Inr results
           \<and> distinct (map fst results)
           \<and> (\<forall>f. map_of results f
                  = (if field_values f elements = [] then None
                     else Some \<lparr>present = int (length (field_values f elements)),
                                present_pct = of_int (int (length (field_values f elements)))
                                              / of_int (int (length elements)) * 100,
                                non_empty = int (length (filter (\<lambda>v. strip v \<noteq> [])
                                                          (field_values f elements))),
                                non_empty_pct = of_int (int (length (filter (\<lambda>v. strip v \<noteq> [])
                                                          (field_values f elements))))
                                              / of_int (int (length elements)) * 100,
                                samples = take 3 (so (sample_values
                                            (fold count_value (field_values f elements) new_stat)))\<rparr>))"
proof -
  let ?t = "int (length elements)"
  from assms(1) have t: "?t \<noteq> 0" by simp
  from percentages_ok [OF t tally_distinct, of so elements "[]"]
  obtain res where res: "percentages so ?t (tally elements) [] = Inr res"
    and m: "\<And>f. map_of res f
                  = (case map_of (tally elements) f of None \<Rightarrow> map_of [] f
                     | Some s \<Rightarrow> (case result_entry so ?t s of Inl e \<Rightarrow> None | Inr r \<Rightarrow> Some r))"
    and d: "distinct (map fst res)"
    by auto
  have a: "analyze_fields so elements = Inr res"
    using t res by (simp add: analyze_fields_def)
  have "map_of res f
                  = (if field_values f elements = [] then None
                     else Some \<lparr>present = int (length (field_values f elements)),
                                present_pct = of_int (int (length (field_values f elements)))
                                              / of_int (int (length elements)) * 100,
                                non_empty = int (length (filter (\<lambda>v. strip v \<noteq> [])
                                                          (field_values f elements))),
                                non_empty_pct = of_int (int (length (filter (\<lambda>v. strip v \<noteq> [])
                                                          (field_values f elements))))
                                              / of_int (int (length elements)) * 100,
                                samples = take 3 (so (sample_values
                                            (fold count_value (field_values f elements) new_stat)))\<rparr>)" for f
  proof (cases "field_values f elements = []")
    case True
    then show ?thesis by (simp add: m tally_map_of [OF assms(2)])
  next
    case False
    then have p: "0 < length (field_values f elements)" by simp
    show ?thesis
      using False p
      by (simp add: m tally_map_of [OF assms(2)] result_entry_ok [OF t]
            fold_count_present fold_count_non_empty new_stat_def)
  qed
  with a d show ?thesis by blast
qed

lemma first_seen_snoc:
  "first_seen (xs @ [x]) = (if x \<in> set xs then first_seen xs else first_seen xs @ [x])"
  by (simp add: first_seen_def)

lemma set_first_seen: "set (first_seen xs) = set xs"
  by (simp add: first_seen_def)

lemma distinct_first_seen: "distinct (first_seen xs)"
  by (simp add: first_seen_def)

lemma count_value_samples:
  assumes "sample_values st = take 5 (first_seen ys)"
  shows "sample_values (count_value v st)
           = take 5 (first_seen (ys @ map (take 50) (filter (\<lambda>v. strip v \<noteq> []) [v])))"
proof (cases "strip v \<noteq> []")
  case False
  then show ?thesis by (simp add: count_value_def assms)
next
  case True
  then have nv: "v \<noteq> []" by (auto simp: strip_def)
  show ?thesis
  proof (cases "length (first_seen ys) < 5")
    case True
    then have s: "sample_values st = first_seen ys" by (simp add: assms)
    show ?thesis
      using True \<open>strip v \<noteq> []\<close> nv
      by (simp add: count_value_def Let_def s set_add_def first_seen_snoc set_first_seen)
  next
    case False
    then show ?thesis
      using \<open>strip v \<noteq> []\<close> nv
      by (simp add: count_value_def Let_def assms first_seen_snoc)
  qed
qed

lemma fold_count_samples:
  "sample_values st = take 5 (first_seen ys) \<Longrightarrow>
   sample_values (fold count_value vs st)
     = take 5 (first_seen (ys @ map (take 50) (filter (\<lambda>v. strip v \<noteq> []) vs)))"
proof (induction vs arbitrary: st ys)
  case Nil
  then show ?case by simp
next
  case (Cons v vs)
  from count_value_samples [OF Cons.prems, of v]
  have "sample_values (fold count_value vs (count_value v st))
     = take 5 (first_seen ((ys @ map (take 50) (filter (\<lambda>v. strip v \<noteq> []) [v]))
                 @ map (take 50) (filter (\<lambda>v. strip v \<noteq> []) vs)))"
    by (rule Cons.IH)
  then show ?case by simp
qed

lemma samples_collected:
  "sample_values (fold count_value vs new_stat)
     = take 5 (first_seen (map (take 50) (filter (\<lambda>v. strip v \<noteq> []) vs)))"
  using fold_count_samples [of new_stat "[]" vs] by (simp add: new_stat_def first_seen_def)

lemma analyze_fields_total:
  "\<exists>results. analyze_fields so elements = Inr results \<and> distinct (map fst results)"
proof (cases "elements = []")
  case True
  then show ?thesis by (simp add: analyze_fields_def)
next
  case False
  then have t: "int (length elements) \<noteq> 0" by simp
  from percentages_ok [OF t tally_distinct, of so elements "[]"] t
  show ?thesis by (auto simp: analyze_fields_def)
qed

lemma categorize_loop_filter:
  "categorize_loop xs (a, s, r)
     = (a @ filter (\<lambda>(f, st). non_empty_pct st \<ge> 999 / 10) xs,
        s @ filter (\<lambda>(f, st). non_empty_pct st < 999 / 10 \<and> non_empty_pct st \<ge> 50) xs,
        r @ filter (\<lambda>(f, st). non_empty_pct st < 50) xs)"
  by (induction xs arbitrary: a s r) (auto simp: Let_def)

lemma categorize_fields_filter:
  "categorize_fields results total'
     = (filter (\<lambda>(f, st). non_empty_pct st \<ge> 999 / 10) (sort_key fst results),
        filter (\<lambda>(f, st). non_empty_pct st < 999 / 10 \<and> non_empty_pct st \<ge> 50)
          (sort_key fst results),
        filter (\<lambda>(f, st). non_empty_pct st < 50) (sort_key fst results))"
  by (simp add: categorize_fields_def categorize_loop_filter)

lemma distinct_keys_sort_key:
  assumes "distinct (map fst xs)"
  shows "distinct (map fst (sort_key fst xs))"
proof -
  from assms have "distinct xs" and "inj_on fst (set xs)" by (simp_all add: distinct_map)
  then show ?thesis by (simp add: distinct_map)
qed

lemma distinct_keys_filter:
  "distinct (map fst xs) \<Longrightarrow> distinct (map fst (filter P xs))"
  by (induction xs) auto

lemma show_nat_0: "show_nat 0 = ''0''"
  by code_simp

lemma report_type_no_error: "snd (report_type so xml_content elem_type) = None"
proof -
  obtain results where "analyze_fields so (extract_elements xml_content elem_type) = Inr results"
    using analyze_fields_total [of so "extract_elements xml_content elem_type"] by blast
  then show ?thesis
    by (simp add: report_type_def Let_def split: prod.splits)
qed

lemma main_loop_no_error: "snd (main_loop so xml_content types) = None"
proof (induction types)
  case Nil
  show ?case by simp
next
  case (Cons elem_type types)
  obtain out where "report_type so xml_content elem_type = (out, None)"
    using report_type_no_error [of so xml_content elem_type]
    by (cases "report_type so xml_content elem_type") auto
  with Cons.IH show ?case by (auto split: prod.splits)
qed

subsection \<open>Categorization\<close>

text \<open>
  C2. For every result map of the aggregator, the categorization puts every entry in exactly
  one of the three buckets, the one of its \<^verbatim>\<open>non_empty_pct\<close>: at least 99.9 in the first,
  from 50 up to 99.9 in the second, below 50 in the third. The buckets hold nothing else, no
  name twice, and each lists its entries by ascending name.
\<close>

theorem categorize_partition:
  assumes "analyze_fields so elements = Inr results"
    and "categorize_fields results total' = (always, sometimes, rarely)"
  shows "(\<forall>(f, r) \<in> set results.
            (non_empty_pct r \<ge> 999 / 10 \<longrightarrow>
               (f, r) \<in> set always \<and> (f, r) \<notin> set sometimes \<and> (f, r) \<notin> set rarely)
          \<and> (50 \<le> non_empty_pct r \<and> non_empty_pct r < 999 / 10 \<longrightarrow>
               (f, r) \<notin> set always \<and> (f, r) \<in> set sometimes \<and> (f, r) \<notin> set rarely)
          \<and> (non_empty_pct r < 50 \<longrightarrow>
               (f, r) \<notin> set always \<and> (f, r) \<notin> set sometimes \<and> (f, r) \<in> set rarely))
         \<and> set always \<union> set sometimes \<union> set rarely = set results
         \<and> distinct (map fst (always @ sometimes @ rarely))
         \<and> sorted (map fst always) \<and> sorted (map fst sometimes) \<and> sorted (map fst rarely)"
proof -
  from analyze_fields_total [of so elements] assms(1)
  have d: "distinct (map fst results)" by auto
  let ?xs = "sort_key fst results"
  have a: "always = filter (\<lambda>(f, st). non_empty_pct st \<ge> 999 / 10) ?xs"
    and s: "sometimes
              = filter (\<lambda>(f, st). non_empty_pct st < 999 / 10 \<and> non_empty_pct st \<ge> 50) ?xs"
    and r: "rarely = filter (\<lambda>(f, st). non_empty_pct st < 50) ?xs"
    using assms(2) by (simp_all add: categorize_fields_filter)
  have dx: "distinct (map fst ?xs)" by (rule distinct_keys_sort_key [OF d])
  have sx: "sorted (map fst ?xs)" by (rule sorted_sort_key)
  have 1: "\<forall>(f, r) \<in> set results.
            (non_empty_pct r \<ge> 999 / 10 \<longrightarrow>
               (f, r) \<in> set always \<and> (f, r) \<notin> set sometimes \<and> (f, r) \<notin> set rarely)
          \<and> (50 \<le> non_empty_pct r \<and> non_empty_pct r < 999 / 10 \<longrightarrow>
               (f, r) \<notin> set always \<and> (f, r) \<in> set sometimes \<and> (f, r) \<notin> set rarely)
          \<and> (non_empty_pct r < 50 \<longrightarrow>
               (f, r) \<notin> set always \<and> (f, r) \<notin> set sometimes \<and> (f, r) \<in> set rarely)"
    by (auto simp: a s r)
  have 2: "set always \<union> set sometimes \<union> set rarely = set results"
    by (auto simp: a s r)
  have k: "fst ` set always \<inter> fst ` set sometimes = {}"
       "fst ` set always \<inter> fst ` set rarely = {}"
       "fst ` set sometimes \<inter> fst ` set rarely = {}"
    using d by (auto simp: a s r dest: eq_key_imp_eq_value)
  have 3: "distinct (map fst (always @ sometimes @ rarely))"
    using k dx by (auto simp: a s r distinct_keys_filter)
  have 4: "sorted (map fst always)" "sorted (map fst sometimes)" "sorted (map fst rarely)"
    unfolding a s r by (rule sorted_filter [OF sx])+
  from 1 2 3 4 show ?thesis by blast
qed

text \<open>The scenario satisfies the hypotheses of C2.\<close>

theorem categorize_partition_witness:
  "analyze_fields (\<lambda>s. s) scenario_elements
     = Inr [(''id'', \<lparr>present = 3, present_pct = 100, non_empty = 3, non_empty_pct = 100,
                      samples = [''1'', ''2'', ''3'']\<rparr>),
            (''qty'', \<lparr>present = 2, present_pct = 200 / 3, non_empty = 1, non_empty_pct = 100 / 3,
                       samples = [''10'']\<rparr>)]
   \<and> categorize_fields
         [(''id'', \<lparr>present = 3, present_pct = 100, non_empty = 3, non_empty_pct = 100,
                      samples = [''1'', ''2'', ''3'']\<rparr>),
          (''qty'', \<lparr>present = 2, present_pct = 200 / 3, non_empty = 1, non_empty_pct = 100 / 3,
                       samples = [''10'']\<rparr>)] 3
     = ([(''id'', \<lparr>present = 3, present_pct = 100, non_empty = 3, non_empty_pct = 100,
                      samples = [''1'', ''2'', ''3'']\<rparr>)],
        [],
        [(''qty'', \<lparr>present = 2, present_pct = 200 / 3, non_empty = 1, non_empty_pct = 100 / 3,
                       samples = [''10'']\<rparr>)])
   \<and> distinct (map fst
        ([(''id'', \<lparr>present = 3, present_pct = 100, non_empty = 3, non_empty_pct = 100,
                      samples = [''1'', ''2'', ''3'']\<rparr>)]
         @ [] @
         [(''qty'', \<lparr>present = 2, present_pct = 200 / 3, non_empty = 1, non_empty_pct = 100 / 3,
                       samples = [''10'']\<rparr>)]))"
proof -
  have h1: "analyze_fields (\<lambda>s. s) scenario_elements
     = Inr [(''id'', \<lparr>present = 3, present_pct = 100, non_empty = 3, non_empty_pct = 100,
                      samples = [''1'', ''2'', ''3'']\<rparr>),
            (''qty'', \<lparr>present = 2, present_pct = 200 / 3, non_empty = 1, non_empty_pct = 100 / 3,
                       samples = [''10'']\<rparr>)]"
    unfolding scenario_elements_def by code_simp
  have h2: "categorize_fields
         [(''id'', \<lparr>present = 3, present_pct = 100, non_empty = 3, non_empty_pct = 100,
                      samples = [''1'', ''2'', ''3'']\<rparr>),
          (''qty'', \<lparr>present = 2, present_pct = 200 / 3, non_empty = 1, non_empty_pct = 100 / 3,
                       samples = [''10'']\<rparr>)] 3
     = ([(''id'', \<lparr>present = 3, present_pct = 100, non_empty = 3, non_empty_pct = 100,
                      samples = [''1'', ''2'', ''3'']\<rparr>)],
        [],
        [(''qty'', \<lparr>present = 2, present_pct = 200 / 3, non_empty = 1, non_empty_pct = 100 / 3,
                       samples = [''10'']\<rparr>)])"
    by code_simp
  from categorize_partition [OF h1 h2] h1 h2 show ?thesis by blast
qed

subsection \<open>Counts and percentages\<close>

text \<open>
  C3. For a non-empty sequence of occurrences, the result has an entry for exactly the
  attribute names that occur, and for a name in \<open>N\<close> occurrences, \<open>K\<close> of them with a value
  that is not empty after stripping, the entry has \<^verbatim>\<open>present\<close> \<open>N\<close>,
  \<^verbatim>\<open>present_pct\<close> \<open>N / total * 100\<close>, \<^verbatim>\<open>non_empty\<close> \<open>K\<close> and
  \<^verbatim>\<open>non_empty_pct\<close> \<open>K / total * 100\<close>.
\<close>

theorem aggregator_counts:
  assumes "elements \<noteq> []" and "list_all is_dict elements"
  shows "\<exists>results. analyze_fields so elements = Inr results
           \<and> (\<forall>f. (map_of results f \<noteq> None) = (0 < length (filter (has_field f) elements)))
           \<and> (\<forall>f r. map_of results f = Some r \<longrightarrow>
                  present r = int (length (filter (has_field f) elements))
                \<and> present_pct r
                    = of_nat (length (filter (has_field f) elements))
                      / of_nat (length elements) * 100
                \<and> non_empty r = int (length (filter (has_value f) elements))
                \<and> non_empty_pct r
                    = of_nat (length (filter (has_value f) elements))
                      / of_nat (length elements) * 100)"
proof -
  from analyze_fields_entries [OF assms, of so]
  obtain results where a: "analyze_fields so elements = Inr results"
    and m: "\<And>f. map_of results f
                  = (if field_values f elements = [] then None
                     else Some \<lparr>present = int (length (field_values f elements)),
                                present_pct = of_int (int (length (field_values f elements)))
                                              / of_int (int (length elements)) * 100,
                                non_empty = int (length (filter (\<lambda>v. strip v \<noteq> [])
                                                          (field_values f elements))),
                                non_empty_pct = of_int (int (length (filter (\<lambda>v. strip v \<noteq> [])
                                                          (field_values f elements))))
                                              / of_int (int (length elements)) * 100,
                                samples = take 3 (so (sample_values
                                            (fold count_value (field_values f elements) new_stat)))\<rparr>)"
    by blast
  have e: "field_values f elements = [] \<longleftrightarrow> length (filter (has_field f) elements) = 0" for f
    using length_field_values [of f elements] by (metis length_0_conv)
  have 1: "(map_of results f \<noteq> None) = (0 < length (filter (has_field f) elements))" for f
    using e [of f] by (simp add: m)
  have 2: "present r = int (length (filter (has_field f) elements))
                \<and> present_pct r
                    = of_nat (length (filter (has_field f) elements))
                      / of_nat (length elements) * 100
                \<and> non_empty r = int (length (filter (has_value f) elements))
                \<and> non_empty_pct r
                    = of_nat (length (filter (has_value f) elements))
                      / of_nat (length elements) * 100"
    if "map_of results f = Some r" for f r
    using that
    by (auto simp: m length_field_values length_nonblank_field_values split: if_splits)
  from a 1 2 show ?thesis by blast
qed

text \<open>The scenario satisfies the hypotheses of C3.\<close>

theorem aggregator_counts_witness:
  "scenario_elements \<noteq> [] \<and> list_all is_dict scenario_elements
   \<and> (\<exists>results. analyze_fields (\<lambda>s. s) scenario_elements = Inr results
         \<and> map_of results ''price'' = None
         \<and> (\<exists>r. map_of results ''qty'' = Some r
                \<and> present r = 2 \<and> present_pct r = 200 / 3
                \<and> non_empty r = 1 \<and> non_empty_pct r = 100 / 3))"
proof -
  have h1: "scenario_elements \<noteq> []" by (simp add: scenario_elements_def)
  have h2: "list_all is_dict scenario_elements" by (simp add: scenario_elements_def is_dict_def)
  have n: "length (filter (has_field ''qty'') scenario_elements) = 2"
    "length (filter (has_value ''qty'') scenario_elements) = 1"
    "length (filter (has_field ''price'') scenario_elements) = 0"
    "length scenario_elements = 3"
    unfolding scenario_elements_def by code_simp+
  from aggregator_counts [OF h1 h2, of "\<lambda>s. s"]
  obtain results where a: "analyze_fields (\<lambda>s. s) scenario_elements = Inr results"
    and d: "\<And>f. (map_of results f \<noteq> None) = (0 < length (filter (has_field f) scenario_elements))"
    and v: "\<And>f r. map_of results f = Some r \<Longrightarrow>
                  present r = int (length (filter (has_field f) scenario_elements))
                \<and> present_pct r
                    = of_nat (length (filter (has_field f) scenario_elements))
                      / of_nat (length scenario_elements) * 100
                \<and> non_empty r = int (length (filter (has_value f) scenario_elements))
                \<and> non_empty_pct r
                    = of_nat (length (filter (has_value f) scenario_elements))
                      / of_nat (length scenario_elements) * 100"
    by blast
  from d [of "''price''"] have p: "map_of results ''price'' = None" by (simp add: n)
  from d [of "''qty''"] obtain r where r: "map_of results ''qty'' = Some r" by (auto simp: n)
  from v [OF r] have "present r = 2 \<and> present_pct r = 200 / 3
                \<and> non_empty r = 1 \<and> non_empty_pct r = 100 / 3"
    by (simp add: n)
  with h1 h2 a p r show ?thesis by blast
qed

subsection \<open>Samples\<close>

text \<open>
  C4, as amended. The set of sample values of an attribute holds the first five distinct
  values among the 50-character prefixes of its non-blank values, in the order first seen.
  The \<^verbatim>\<open>samples\<close> field is the first three entries of the iteration of that set: three of
  its members, or all of them when there are fewer, each once, in the order of the
  iteration and not of first occurrence.
\<close>

theorem aggregator_samples:
  assumes "elements \<noteq> []" and "list_all is_dict elements" and "set_iteration so"
  shows "\<exists>results. analyze_fields so elements = Inr results
           \<and> (\<forall>f r. map_of results f = Some r \<longrightarrow>
                 (let seen = take 5 (first_seen (map (take 50)
                               (filter (\<lambda>v. strip v \<noteq> []) (field_values f elements))))
                  in samples r = take 3 (so seen)
                     \<and> distinct (samples r)
                     \<and> set (samples r) \<subseteq> set seen
                     \<and> length (samples r) = min 3 (length seen)))"
proof -
  from analyze_fields_entries [OF assms(1,2), of so]
  obtain results where a: "analyze_fields so elements = Inr results"
    and m: "\<And>f. map_of results f
                  = (if field_values f elements = [] then None
                     else Some \<lparr>present = int (length (field_values f elements)),
                                present_pct = of_int (int (length (field_values f elements)))
                                              / of_int (int (length elements)) * 100,
                                non_empty = int (length (filter (\<lambda>v. strip v \<noteq> [])
                                                          (field_values f elements))),
                                non_empty_pct = of_int (int (length (filter (\<lambda>v. strip v \<noteq> [])
                                                          (field_values f elements))))
                                              / of_int (int (length elements)) * 100,
                                samples = take 3 (so (sample_values
                                            (fold count_value (field_values f elements) new_stat)))\<rparr>)"
    by blast
  have "let seen = take 5 (first_seen (map (take 50)
                               (filter (\<lambda>v. strip v \<noteq> []) (field_values f elements))))
                  in samples r = take 3 (so seen)
                     \<and> distinct (samples r)
                     \<and> set (samples r) \<subseteq> set seen
                     \<and> length (samples r) = min 3 (length seen)"
    if s: "map_of results f = Some r" for f r
  proof -
    define seen where "seen = take 5 (first_seen (map (take 50)
                               (filter (\<lambda>v. strip v \<noteq> []) (field_values f elements))))"
    have d: "distinct seen" by (simp add: seen_def distinct_first_seen)
    with assms(3) have ds: "distinct (so seen)" and ss: "set (so seen) = set seen"
      by (simp_all add: set_iteration_def)
    from ds ss d have l: "length (so seen) = length seen"
      by (metis distinct_card)
    from s have r: "samples r = take 3 (so seen)"
      by (auto simp: m samples_collected seen_def split: if_splits)
    have "distinct (samples r)" using ds by (simp add: r)
    moreover have "set (samples r) \<subseteq> set seen"
      using ss set_take_subset [of 3 "so seen"] by (simp add: r)
    moreover have "length (samples r) = min 3 (length seen)"
      by (simp add: r l min.commute)
    ultimately show ?thesis using r by (simp add: seen_def Let_def)
  qed
  with a show ?thesis by blast
qed

text \<open>The scenario, with a set that iterates last-added first.\<close>

theorem aggregator_samples_witness:
  "scenario_elements \<noteq> [] \<and> list_all is_dict scenario_elements \<and> set_iteration rev
   \<and> (\<exists>results r. analyze_fields rev scenario_elements = Inr results
         \<and> map_of results ''id'' = Some r
         \<and> samples r = [''3'', ''2'', ''1''])"
proof -
  have h1: "scenario_elements \<noteq> []" by (simp add: scenario_elements_def)
  have h2: "list_all is_dict scenario_elements" by (simp add: scenario_elements_def is_dict_def)
  have h3: "set_iteration rev" by (simp add: set_iteration_def)
  have e: "analyze_fields rev scenario_elements
     = Inr [(''id'', \<lparr>present = 3, present_pct = 100, non_empty = 3, non_empty_pct = 100,
                      samples = [''3'', ''2'', ''1'']\<rparr>),
            (''qty'', \<lparr>present = 2, present_pct = 200 / 3, non_empty = 1, non_empty_pct = 100 / 3,
                       samples = [''10'']\<rparr>)]"
    unfolding scenario_elements_def by code_simp
  have s: "take 5 (first_seen (map (take 50)
                (filter (\<lambda>v. strip v \<noteq> []) (field_values ''id'' scenario_elements))))
             = [''1'', ''2'', ''3'']"
    unfolding scenario_elements_def by code_simp
  from aggregator_samples [OF h1 h2 h3]
  obtain results where a: "analyze_fields rev scenario_elements = Inr results"
    and m: "\<And>f r. map_of results f = Some r \<Longrightarrow>
                 (let seen = take 5 (first_seen (map (take 50)
                               (filter (\<lambda>v. strip v \<noteq> []) (field_values f scenario_elements))))
                  in samples r = take 3 (rev seen)
                     \<and> distinct (samples r)
                     \<and> set (samples r) \<subseteq> set seen
                     \<and> length (samples r) = min 3 (length seen))"
    by blast
  from a e obtain r where r: "map_of results ''id'' = Some r" by auto
  from m [OF r] have "samples r = [''3'', ''2'', ''1'']"
    unfolding s by (simp add: Let_def)
  with h1 h2 h3 a r show ?thesis by blast
qed

text \<open>
  C4, as stated, fails: with a set that iterates last-added first, the samples of an
  attribute seen with \<^verbatim>\<open>x\<close> and then \<^verbatim>\<open>y\<close> are \<^verbatim>\<open>y\<close>, \<^verbatim>\<open>x\<close>.
\<close>

theorem samples_not_first_seen:
  "set_iteration rev
   \<and> analyze_fields rev [[(''a'', ''x'')], [(''a'', ''y'')]]
       = Inr [(''a'', \<lparr>present = 2, present_pct = 100, non_empty = 2, non_empty_pct = 100,
                        samples = [''y'', ''x'']\<rparr>)]"
proof
  show "set_iteration rev" by (simp add: set_iteration_def)
  show "analyze_fields rev [[(''a'', ''x'')], [(''a'', ''y'')]]
       = Inr [(''a'', \<lparr>present = 2, present_pct = 100, non_empty = 2, non_empty_pct = 100,
                        samples = [''y'', ''x'']\<rparr>)]"
    by code_simp
qed

subsection \<open>No occurrences\<close>

text \<open>
  C5. On no occurrences the aggregator returns the empty map. No input raises the division
  error, in the aggregator, in the report of an element type or in the loop of \<^verbatim>\<open>main\<close> over
  the four types. When the extractor finds nothing, the report of the element type is its
  three header lines and the line of the count, and nothing else.
\<close>

theorem empty_input_report:
  "analyze_fields so [] = Inr []
   \<and> (\<forall>elements. \<exists>results. analyze_fields so elements = Inr results)
   \<and> (\<forall>xml_content elem_type. snd (report_type so xml_content elem_type) = None)
   \<and> (\<forall>xml_content. snd (main_loop so xml_content element_types) = None)
   \<and> (\<forall>xml_content elem_type.
         extract_elements xml_content elem_type = [] \<longrightarrow>
         report_type so xml_content elem_type
           = ([Line (CHR 0x0A # CHR 0x0A # replicate 60 CHR ''#''),
               Line (''# '' @ elem_type),
               Line (replicate 60 CHR ''#''),
               Line (''Found 0 '' @ elem_type @ '' elements'')],
              None))"
proof -
  have 1: "analyze_fields so [] = Inr []" by (simp add: analyze_fields_def)
  have 2: "\<exists>results. analyze_fields so elements = Inr results" for elements
    using analyze_fields_total [of so elements] by blast
  have 3: "snd (report_type so xml_content elem_type) = None" for xml_content elem_type
    by (rule report_type_no_error)
  have 5: "snd (main_loop so xml_content element_types) = None" for xml_content
    by (rule main_loop_no_error)
  have 4: "report_type so xml_content elem_type
           = ([Line (CHR 0x0A # CHR 0x0A # replicate 60 CHR ''#''),
               Line (''# '' @ elem_type),
               Line (replicate 60 CHR ''#''),
               Line (''Found 0 '' @ elem_type @ '' elements'')],
              None)"
    if "extract_elements xml_content elem_type = []" for xml_content elem_type
    using that by (simp add: report_type_def Let_def show_nat_0)
  from 1 2 3 5 4 show ?thesis by blast
qed

text \<open>The scenario has no \<^verbatim>\<open>CorporateAction\<close> element.\<close>

theorem empty_input_report_witness:
  "extract_elements scenario_doc ''CorporateAction'' = []
   \<and> report_type (\<lambda>s. s) scenario_doc ''CorporateAction''
       = ([Line (CHR 0x0A # CHR 0x0A # replicate 60 CHR ''#''),
           Line ''# CorporateAction'',
           Line (replicate 60 CHR ''#''),
           Line ''Found 0 CorporateAction elements''],
          None)"
proof -
  have h: "extract_elements scenario_doc ''CorporateAction'' = []"
    unfolding scenario_doc_def by code_simp
  from empty_input_report [of "\<lambda>s. s"] h
  have "report_type (\<lambda>s. s) scenario_doc ''CorporateAction''
           = ([Line (CHR 0x0A # CHR 0x0A # replicate 60 CHR ''#''),
               Line (''# '' @ ''CorporateAction''),
               Line (replicate 60 CHR ''#''),
               Line (''Found 0 '' @ ''CorporateAction'' @ '' elements'')],
              None)"
    by blast
  with h show ?thesis by simp
qed

subsection \<open>Bounds of the counts\<close>

text \<open>
  C8. For a non-empty sequence of occurrences every entry of the result has
  \<open>1 \<le> present \<le> total\<close> and \<open>0 \<le> non_empty \<le> present\<close>, and every entry of
  \<^verbatim>\<open>field_stats\<close> passes the guard \<^verbatim>\<open>present > 0\<close> of the conditional expression, whose
  \<^verbatim>\<open>else\<close> branch is therefore never taken.
\<close>

theorem aggregator_bounds:
  assumes "elements \<noteq> []" and "list_all is_dict elements"
  shows "\<exists>results. analyze_fields so elements = Inr results
           \<and> (\<forall>(f, r) \<in> set results.
                  1 \<le> present r \<and> present r \<le> int (length elements)
                \<and> 0 \<le> non_empty r \<and> non_empty r \<le> present r)
           \<and> (\<forall>(f, st) \<in> set (tally elements). 0 < fs_present st)"
proof -
  from analyze_fields_entries [OF assms, of so]
  obtain results where a: "analyze_fields so elements = Inr results"
    and d: "distinct (map fst results)"
    and m: "\<And>f. map_of results f
                  = (if field_values f elements = [] then None
                     else Some \<lparr>present = int (length (field_values f elements)),
                                present_pct = of_int (int (length (field_values f elements)))
                                              / of_int (int (length elements)) * 100,
                                non_empty = int (length (filter (\<lambda>v. strip v \<noteq> [])
                                                          (field_values f elements))),
                                non_empty_pct = of_int (int (length (filter (\<lambda>v. strip v \<noteq> [])
                                                          (field_values f elements))))
                                              / of_int (int (length elements)) * 100,
                                samples = take 3 (so (sample_values
                                            (fold count_value (field_values f elements) new_stat)))\<rparr>)"
    by blast
  have 1: "1 \<le> present r \<and> present r \<le> int (length elements)
                \<and> 0 \<le> non_empty r \<and> non_empty r \<le> present r"
    if "(f, r) \<in> set results" for f r
  proof -
    from that d have s: "map_of results f = Some r" by simp
    have l: "length (field_values f elements) \<le> length elements"
      by (simp add: length_field_values)
    have p: "0 < length (field_values f elements)"
      using s by (auto simp: m split: if_splits)
    have r: "r = \<lparr>present = int (length (field_values f elements)),
                                present_pct = of_int (int (length (field_values f elements)))
                                              / of_int (int (length elements)) * 100,
                                non_empty = int (length (filter (\<lambda>v. strip v \<noteq> [])
                                                          (field_values f elements))),
                                non_empty_pct = of_int (int (length (filter (\<lambda>v. strip v \<noteq> [])
                                                          (field_values f elements))))
                                              / of_int (int (length elements)) * 100,
                                samples = take 3 (so (sample_values
                                            (fold count_value (field_values f elements) new_stat)))\<rparr>"
      using s by (auto simp: m split: if_splits)
    show ?thesis
      using l p by (simp add: r Suc_le_eq)
  qed
  have 2: "0 < fs_present st" if "(f, st) \<in> set (tally elements)" for f st
  proof -
    from that tally_distinct [of elements] have "map_of (tally elements) f = Some st" by simp
    then show ?thesis
      by (auto simp: tally_map_of [OF assms(2)] fold_count_present new_stat_def split: if_splits)
  qed
  from a 1 2 show ?thesis by blast
qed

text \<open>The scenario satisfies the hypotheses of C8.\<close>

theorem aggregator_bounds_witness:
  "scenario_elements \<noteq> [] \<and> list_all is_dict scenario_elements
   \<and> (\<exists>results r. analyze_fields (\<lambda>s. s) scenario_elements = Inr results
         \<and> (''qty'', r) \<in> set results
         \<and> 1 \<le> present r \<and> present r \<le> 3 \<and> 0 \<le> non_empty r \<and> non_empty r \<le> present r)
   \<and> (\<exists>st. (''qty'', st) \<in> set (tally scenario_elements) \<and> 0 < fs_present st)"
proof -
  have h1: "scenario_elements \<noteq> []" by (simp add: scenario_elements_def)
  have h2: "list_all is_dict scenario_elements" by (simp add: scenario_elements_def is_dict_def)
  have t: "tally scenario_elements
             = [(''id'', \<lparr>fs_present = 3, fs_non_empty = 3, sample_values = [''1'', ''2'', ''3'']\<rparr>),
                (''qty'', \<lparr>fs_present = 2, fs_non_empty = 1, sample_values = [''10'']\<rparr>)]"
    unfolding scenario_elements_def by code_simp
  have e: "analyze_fields (\<lambda>s. s) scenario_elements
     = Inr [(''id'', \<lparr>present = 3, present_pct = 100, non_empty = 3, non_empty_pct = 100,
                      samples = [''1'', ''2'', ''3'']\<rparr>),
            (''qty'', \<lparr>present = 2, present_pct = 200 / 3, non_empty = 1, non_empty_pct = 100 / 3,
                       samples = [''10'']\<rparr>)]"
    unfolding scenario_elements_def by code_simp
  have l: "int (length scenario_elements) = 3" by (simp add: scenario_elements_def)
  from aggregator_bounds [OF h1 h2, of "\<lambda>s. s"]
  obtain results where a: "analyze_fields (\<lambda>s. s) scenario_elements = Inr results"
    and b: "\<forall>(f, r) \<in> set results.
                  1 \<le> present r \<and> present r \<le> int (length scenario_elements)
                \<and> 0 \<le> non_empty r \<and> non_empty r \<le> present r"
    and g: "\<forall>(f, st) \<in> set (tally scenario_elements). 0 < fs_present st"
    by blast
  from a e obtain r where r: "(''qty'', r) \<in> set results" by auto
  from b r have "1 \<le> present r \<and> present r \<le> 3 \<and> 0 \<le> non_empty r \<and> non_empty r \<le> present r"
    unfolding l by blast
  moreover from t obtain st where st: "(''qty'', st) \<in> set (tally scenario_elements)" by auto
  moreover from g st have "0 < fs_present st" by blast
  ultimately show ?thesis using h1 h2 a r st by blast
qed

subsection \<open>The matcher on the element pattern\<close>

lemma first_some_None_iff: "first_some xs = None \<longleftrightarrow> (\<forall>x\<in>set xs. x = None)"
  by (induction xs rule: first_some.induct) auto

lemma first_some_append:
  "first_some (xs @ ys) = (case first_some xs of None \<Rightarrow> first_some ys | Some x \<Rightarrow> Some x)"
  by (induction xs rule: first_some.induct) auto

lemma first_some_in: "first_some xs = Some y \<Longrightarrow> Some y \<in> set xs"
  by (induction xs rule: first_some.induct) auto

lemma is_space_simps [simp]:
  "\<not> is_space CHR ''<''" "\<not> is_space CHR ''>''" "\<not> is_space CHR ''/''"
  by (simp_all add: is_space_def)

lemma word_not_space: "is_word c \<Longrightarrow> \<not> is_space c"
  by (auto simp: is_word_def is_space_def Let_def)

lemma word_not_lt: "is_word c \<Longrightarrow> c \<noteq> CHR ''<''"
  by (auto simp: is_word_def Let_def)

lemma run_space_append:
  assumes "list_all is_space gap" and "u = [] \<or> \<not> is_space (hd u)"
  shows "run Space (gap @ u) = length gap"
proof -
  from assms(2) have "takeWhile is_space u = []" by (cases u) auto
  moreover have "takeWhile is_space (gap @ u) = gap @ takeWhile is_space u"
    using assms(1) by (simp add: takeWhile_append2 list_all_iff)
  ultimately show ?thesis
    by (simp add: run_def fun_eq_iff cong: takeWhile_cong)
qed

lemma in_class_Space [simp]: "in_class Space = is_space"
  by (simp add: fun_eq_iff)

lemma lit_closing:
  "match_here [Lit ''/>''] s = (if take 2 s = ''/>'' then Some ([], drop 2 s) else None)"
  by (simp add: numeral_2_eq_2)

lemma upt_split: "j \<le> n \<Longrightarrow> [0..<Suc n] = [0..<j] @ j # [Suc j..<Suc n]"
proof -
  assume "j \<le> n"
  then obtain d where n: "n = j + d" by (auto simp: le_iff_add)
  have "[0..<j + Suc d] = [0..<j] @ [j..<j + Suc d]"
    by (rule upt_add_eq_append) simp
  moreover have "[j..<j + Suc d] = j # [Suc j..<j + Suc d]"
    by (rule upt_conv_Cons) simp
  ultimately show ?thesis by (simp add: n)
qed

lemma closing_match:
  "match_here [Rep Space 0 Greedy, Lit ''/>''] r
     = (if take 2 (dropWhile is_space r) = ''/>''
        then Some ([], drop 2 (dropWhile is_space r)) else None)"
proof -
  let ?n = "length (takeWhile is_space r)"
  let ?f = "\<lambda>k. match_here [Lit ''/>''] (drop k r)"
  have d: "drop ?n r = dropWhile is_space r"
    by (simp add: dropWhile_eq_drop)
  have m: "match_here [Rep Space 0 Greedy, Lit ''/>''] r = first_some (?f ?n # map ?f (rev [0..<?n]))"
    by (simp add: run_def del: match_here.simps(2))
  show ?thesis
  proof (cases "take 2 (dropWhile is_space r) = ''/>''")
    case True
    then show ?thesis unfolding m lit_closing by (simp add: d)
  next
    case False
    have "?f k = None" if "k < ?n" for k
    proof -
      from that have kl: "k < length r"
        by (meson length_takeWhile_le less_le_trans)
      from that have "is_space (r ! k)"
        by (metis nth_mem set_takeWhileD takeWhile_nth)
      then have "hd (drop k r) \<noteq> CHR ''/''"
        using kl by (auto simp: hd_drop_conv_nth)
      moreover have "drop k r \<noteq> []" using kl by simp
      ultimately have "take 2 (drop k r) \<noteq> ''/>''"
        by (cases "drop k r") auto
      then show ?thesis unfolding lit_closing by simp
    qed
    then have "first_some (map ?f (rev [0..<?n])) = None"
      by (simp add: first_some_None_iff del: match_here.simps(2))
    with False show ?thesis unfolding m by (simp add: d lit_closing del: match_here.simps(2))
  qed
qed

lemma lazy_capture:
  assumes "j \<le> run c s"
    and "\<And>i. i < j \<Longrightarrow> match_here p (drop i s) = None"
    and "match_here p (drop j s) = Some (g, t)"
  shows "match_here (Cap c 0 Lazy # p) s = Some (take j s # g, t)"
proof -
  let ?F = "\<lambda>k. map_option (\<lambda>(g, t). (take k s # g, t)) (match_here p (drop k s))"
  have u: "[0..<Suc (run c s)] = [0..<j] @ j # [Suc j..<Suc (run c s)]"
    using assms(1) by (rule upt_split)
  have n: "first_some (map ?F [0..<j]) = None"
    using assms(2) by (simp add: first_some_None_iff)
  show ?thesis
    by (simp add: u first_some_append n assms(3) del: upt_Suc)
qed

lemma greedy_gap:
  assumes "gap \<noteq> []" and "list_all is_space gap" and "u = [] \<or> \<not> is_space (hd u)"
    and "match_here p u = Some x"
  shows "match_here (Rep Space 1 Greedy # p) (gap @ u) = Some x"
proof -
  from assms(1) have l: "1 \<le> length gap" by (cases gap) auto
  have "rev [1..<Suc (length gap)] = length gap # rev [1..<length gap]"
    using l by simp
  then show ?thesis
    by (simp add: run_space_append [OF assms(2,3)] assms(4) del: upt_Suc)
qed

lemma no_closing: "CHR ''>'' \<notin> set y \<Longrightarrow> 2 \<le> length y \<Longrightarrow> take 2 (y @ z) \<noteq> ''/>''"
proof
  assume a: "CHR ''>'' \<notin> set y" "2 \<le> length y" "take 2 (y @ z) = ''/>''"
  then have "take 2 y = ''/>''" by simp
  then have "CHR ''>'' \<in> set (take 2 y)" by simp
  then have "CHR ''>'' \<in> set y" by (rule in_set_takeD)
  with a(1) show False by simp
qed

lemma closing_found:
  assumes "list_all is_space w"
  shows "match_here [Rep Space 0 Greedy, Lit ''/>''] (w @ ''/>'' @ rest) = Some ([], rest)"
proof -
  have "dropWhile is_space (w @ ''/>'' @ rest) = ''/>'' @ rest"
    using assms by (simp add: dropWhile_append2 list_all_iff)
  then show ?thesis unfolding closing_match by simp
qed

lemma closing_not_found:
  assumes "d \<noteq> []" and "\<not> is_space (last d)" and "CHR ''>'' \<notin> set d" and "list_all is_space w"
  shows "match_here [Rep Space 0 Greedy, Lit ''/>''] (d @ w @ ''/>'' @ rest) = None"
proof -
  let ?d' = "dropWhile is_space d"
  from assms(1,2) have l: "last d \<in> set d" "\<not> is_space (last d)" by simp_all
  then have e: "dropWhile is_space (d @ w @ ''/>'' @ rest) = ?d' @ w @ ''/>'' @ rest"
    by (rule dropWhile_append1)
  from l have ne: "?d' \<noteq> []" by (auto simp: dropWhile_eq_Nil_conv)
  have "set ?d' \<subseteq> set d" by (rule set_dropWhileD [THEN subsetI])
  with assms(3) have g: "CHR ''>'' \<notin> set ?d'" by auto
  from assms(4) have gw: "CHR ''>'' \<notin> set w" by (auto simp: list_all_iff)
  have "take 2 ((?d' @ w @ ''/'') @ ''>'' @ rest) \<noteq> ''/>''"
  proof (rule no_closing)
    show "CHR ''>'' \<notin> set (?d' @ w @ ''/'')" using g gw by simp
    show "2 \<le> length (?d' @ w @ ''/'')" using ne by (cases ?d') auto
  qed
  then show ?thesis unfolding closing_match e by simp
qed

lemma element_match:
  assumes "gap \<noteq> []" and "list_all is_space gap" and "CHR ''>'' \<notin> set a"
    and "a = [] \<or> \<not> is_space (hd a)"
  shows "match_here (element_pattern t) (CHR ''<'' # t @ gap @ a @ ''/>'' @ rest)
           = Some ([rev (dropWhile is_space (rev a))], rest)"
proof -
  define b where "b = rev (dropWhile is_space (rev a))"
  define w where "w = rev (takeWhile is_space (rev a))"
  let ?x = "''/>'' @ rest"
  let ?close = "[Rep Space 0 Greedy, Lit ''/>'']"
  have a: "a = b @ w"
    unfolding b_def w_def by (metis rev_append rev_rev_ident takeWhile_dropWhile_id)
  have w: "list_all is_space w"
    unfolding w_def by (auto simp: list_all_iff dest: set_takeWhileD)
  have lb: "\<not> is_space (last b)" if "b \<noteq> []"
  proof -
    from that have "dropWhile is_space (rev a) \<noteq> []" by (simp add: b_def)
    then have "\<not> is_space (hd (dropWhile is_space (rev a)))" by (rule hd_dropWhile)
    then show ?thesis by (simp add: b_def last_rev)
  qed
  have 1: "length b \<le> run (Not CHR ''>'') (a @ ?x)"
  proof -
    have "takeWhile (in_class (Not CHR ''>'')) (a @ ?x)
            = a @ takeWhile (in_class (Not CHR ''>'')) ?x"
      using assms(3) by (intro takeWhile_append2) auto
    then show ?thesis by (simp add: run_def a)
  qed
  have 2: "match_here ?close (drop i (a @ ?x)) = None" if "i < length b" for i
  proof -
    from that have e: "drop i (a @ ?x) = drop i b @ w @ ?x" by (simp add: a)
    from that have n: "drop i b \<noteq> []" by simp
    then have "last (drop i b) = last b" using that by simp
    moreover from that have "b \<noteq> []" by auto
    ultimately have s: "\<not> is_space (last (drop i b))" using lb by simp
    have "set (drop i b) \<subseteq> set a" unfolding a using set_drop_subset [of i b] by auto
    with assms(3) have g: "CHR ''>'' \<notin> set (drop i b)" by auto
    show ?thesis unfolding e by (rule closing_not_found [OF n s g w])
  qed
  have 3: "match_here ?close (drop (length b) (a @ ?x)) = Some ([], rest)"
    using closing_found [OF w, of rest] by (simp add: a)
  have 4: "match_here (Cap (Not CHR ''>'') 0 Lazy # ?close) (a @ ?x) = Some ([b], rest)"
    using lazy_capture [OF 1 2 3] by (simp add: a)
  have 5: "a @ ?x = [] \<or> \<not> is_space (hd (a @ ?x))"
    using assms(4) by (cases a) auto
  have 6: "match_here (Rep Space 1 Greedy # Cap (Not CHR ''>'') 0 Lazy # ?close) (gap @ a @ ?x)
             = Some ([b], rest)"
    by (rule greedy_gap [OF assms(1,2) 5 4])
  show ?thesis
    unfolding element_pattern_def b_def [symmetric]
    using 6 by (simp del: match_here.simps(3,4))
qed

subsection \<open>The search over a document of self-closing elements\<close>

lemma no_match_without_lt:
  "s = [] \<or> hd s \<noteq> CHR ''<'' \<Longrightarrow> match_here (element_pattern t) s = None"
  by (cases s) (auto simp: element_pattern_def)

lemma scan_Nil: "scan (element_pattern t) [] = []"
  by (simp add: scan.simps [of _ "[]"] no_match_without_lt)

lemma scan_skip:
  "list_all (\<lambda>c. c \<noteq> CHR ''<'') u \<Longrightarrow>
   scan (element_pattern t) (u @ s) = scan (element_pattern t) s"
proof (induction u)
  case Nil
  show ?case by simp
next
  case (Cons c u)
  then have "match_here (element_pattern t) (c # u @ s) = None"
    by (intro no_match_without_lt) simp
  then have "scan (element_pattern t) ((c # u) @ s) = scan (element_pattern t) (u @ s)"
    by (simp add: scan.simps [of _ "c # u @ s"])
  with Cons show ?case by simp
qed

lemma scan_no_match:
  assumes "match_here p (c # s) = None"
  shows "scan p (c # s) = scan p s"
  using assms by (simp add: scan.simps [of p "c # s"])

lemma scan_match:
  assumes "match_here p s = Some (g, r)" and "length r < length s"
  shows "scan p s = (s, g) # scan p r"
  using assms by (simp add: scan.simps [of p s])

lemma other_name_no_match:
  assumes "list_all is_word name" and "list_all is_word t" and "name \<noteq> t"
    and "gap \<noteq> []" and "list_all is_space gap"
  shows "match_here (element_pattern t) (CHR ''<'' # name @ gap @ tl0) = None"
proof (cases "take (length t) (name @ gap @ tl0) = t")
  case False
  then show ?thesis by (simp add: element_pattern_def)
next
  case True
  then have p: "prefix t (name @ gap @ tl0)"
    by (metis take_is_prefix)
  from p consider (short) "prefix t name" | (long) us where "t = name @ us" "prefix us (gap @ tl0)"
    by (auto simp: prefix_append)
  then show ?thesis
  proof cases
    case short
    with assms(3) obtain c w where n: "name = t @ c # w"
      by (auto simp: prefix_def) (metis list.exhaust append_Nil2)
    with assms(1) have "\<not> is_space c" by (simp add: word_not_space)
    then have "run Space (c # w @ gap @ tl0) = 0" by (simp add: run_def)
    then show ?thesis by (simp add: element_pattern_def n)
  next
    case long
    with assms(3) have "us \<noteq> []" by auto
    then obtain c w where us: "us = c # w" by (cases us) auto
    with long(2) assms(4) have "c = hd gap" by (cases gap) (auto simp: prefix_def)
    with assms(4,5) have "is_space c" by (cases gap) auto
    moreover from long(1) us assms(2) have "is_word c" by simp
    ultimately show ?thesis by (simp add: word_not_space)
  qed
qed

lemma attr_text_chars:
  "list_all wf_attr attrs \<Longrightarrow>
   CHR ''>'' \<notin> set (concat (map render_attr attrs))
   \<and> CHR ''<'' \<notin> set (concat (map render_attr attrs))"
proof (induction attrs)
  case Nil
  show ?case by simp
next
  case (Cons kvs attrs)
  obtain k v sp where kvs: "kvs = (k, v, sp)" by (cases kvs)
  from Cons.prems kvs have k: "list_all is_word k" and sp: "list_all is_space sp"
    and v: "list_all (\<lambda>c. c \<noteq> CHR 0x22 \<and> c \<noteq> CHR ''<'' \<and> c \<noteq> CHR ''>'') v"
    and r: "list_all wf_attr attrs" by simp_all
  from k have "CHR ''>'' \<notin> set k" "CHR ''<'' \<notin> set k"
    by (auto simp: list_all_iff is_word_def Let_def)
  moreover from sp have "CHR ''>'' \<notin> set sp" "CHR ''<'' \<notin> set sp"
    by (auto simp: list_all_iff)
  moreover from v have "CHR ''>'' \<notin> set v" "CHR ''<'' \<notin> set v"
    by (auto simp: list_all_iff)
  ultimately show ?case using Cons.IH [OF r] by (simp add: kvs)
qed

lemma attr_text_head:
  assumes "list_all wf_attr attrs"
  shows "concat (map render_attr attrs) = []
         \<or> \<not> is_space (hd (concat (map render_attr attrs)))"
proof (cases attrs)
  case Nil
  then show ?thesis by simp
next
  case (Cons kvs rest)
  obtain k v sp where kvs: "kvs = (k, v, sp)" by (cases kvs)
  from assms Cons kvs have "k \<noteq> []" "list_all is_word k" by simp_all
  then have "\<not> is_space (hd k)" by (cases k) (auto simp: word_not_space)
  with \<open>k \<noteq> []\<close> show ?thesis by (simp add: Cons kvs)
qed

lemma scan_node:
  assumes "wf_node n" and "list_all is_word t"
  shows "map snd (scan (element_pattern t) (render n @ rest))
           = (if named t n then [[captured n]] else []) @ map snd (scan (element_pattern t) rest)"
proof (cases n)
  case (Text s)
  with assms(1) show ?thesis by (simp add: scan_skip)
next
  case (Elem name gap attrs)
  let ?a = "concat (map render_attr attrs)"
  from assms(1) Elem have nm: "list_all is_word name" and g1: "gap \<noteq> []"
    and g2: "list_all is_space gap" and at: "list_all wf_attr attrs" by simp_all
  note ch = attr_text_chars [OF at]
  have r: "render n @ rest = CHR ''<'' # name @ gap @ ?a @ ''/>'' @ rest"
    by (simp add: Elem)
  show ?thesis
  proof (cases "name = t")
    case True
    have m: "match_here (element_pattern t) (render n @ rest) = Some ([captured n], rest)"
      unfolding r True
      using element_match [OF g1 g2 _ attr_text_head [OF at], of t rest] ch
      by (simp add: Elem)
    have "scan (element_pattern t) (render n @ rest)
            = (render n @ rest, [captured n]) # scan (element_pattern t) rest"
      by (rule scan_match [OF m]) (simp add: Elem)
    then show ?thesis by (simp add: Elem True)
  next
    case False
    have m: "match_here (element_pattern t) (render n @ rest) = None"
      unfolding r by (rule other_name_no_match [OF nm assms(2) False g1 g2])
    have "CHR ''<'' \<notin> set name"
      using nm word_not_lt by (auto simp: list_all_iff)
    moreover have "CHR ''<'' \<notin> set gap"
      using g2 by (auto simp: list_all_iff)
    ultimately have s: "list_all (\<lambda>c. c \<noteq> CHR ''<'') (name @ gap @ ?a @ ''/>'')"
      using ch by (auto simp: list_all_iff)
    have "scan (element_pattern t) (render n @ rest)
            = scan (element_pattern t) ((name @ gap @ ?a @ ''/>'') @ rest)"
      using m unfolding r by (simp add: scan_no_match)
    also have "\<dots> = scan (element_pattern t) rest"
      by (rule scan_skip [OF s])
    finally show ?thesis by (simp add: Elem False)
  qed
qed

lemma scan_doc:
  assumes "list_all wf_node doc" and "list_all is_word t"
  shows "map snd (scan (element_pattern t) (render_doc doc @ rest))
           = map (\<lambda>n. [captured n]) (filter (named t) doc)
             @ map snd (scan (element_pattern t) rest)"
  using assms(1)
proof (induction doc)
  case Nil
  show ?case by (simp add: render_doc_def)
next
  case (Cons n doc)
  then have n: "wf_node n" and d: "list_all wf_node doc" by simp_all
  have "render_doc (n # doc) @ rest = render n @ (render_doc doc @ rest)"
    by (simp add: render_doc_def)
  then show ?case
    using scan_node [OF n assms(2), of "render_doc doc @ rest"] Cons.IH [OF d] by simp
qed

lemma extract_elements_doc:
  assumes "list_all wf_node doc" and "list_all is_word t"
  shows "extract_elements (render_doc doc) t
           = map (\<lambda>n. attrs_of (captured n)) (filter (named t) doc)"
proof -
  have "extract_elements (render_doc doc) t
          = map (\<lambda>g. attrs_of (g ! 0)) (map snd (scan (element_pattern t) (render_doc doc @ [])))"
    by (simp add: extract_elements_def group_def)
  also have "\<dots> = map (\<lambda>n. attrs_of (captured n)) (filter (named t) doc)"
    unfolding scan_doc [OF assms] by (simp add: scan_Nil comp_def)
  finally show ?thesis .
qed

lemma attrs_of_Nil: "attrs_of [] = []"
proof -
  have "match_here attr_pattern [] = None"
    by (simp add: attr_pattern_def run_def)
  then have "scan attr_pattern [] = []" by (simp add: scan.simps [of _ "[]"])
  then show ?thesis by (simp add: attrs_of_def)
qed

text \<open>
  C6, as amended. For a document of self-closing elements in which white space follows
  every tag name and no attribute value has an angle bracket or a double quote, with text
  free of opening angle brackets between them, and for a requested name of word characters,
  the extractor returns as many occurrences as the document has elements of that name. On
  the empty document it returns the empty sequence for every name.
\<close>

theorem extractor_count:
  assumes "list_all wf_node doc" and "list_all is_word element_name"
  shows "length (extract_elements (render_doc doc) element_name)
           = length (filter (named element_name) doc)
         \<and> extract_elements [] element_name = []"
proof -
  have "extract_elements [] element_name = []"
    by (simp add: extract_elements_def scan_Nil)
  then show ?thesis by (simp add: extract_elements_doc [OF assms])
qed

text \<open>
  C7, as amended. In such a document, an element of the requested name that has white space
  after the name and no attribute is returned, at its place among the occurrences, as the
  empty mapping.
\<close>

theorem bare_element_empty_mapping:
  assumes "list_all wf_node (pre @ Elem element_name gap [] # post)"
    and "list_all is_word element_name"
  shows "extract_elements (render_doc (pre @ Elem element_name gap [] # post)) element_name
           = extract_elements (render_doc pre) element_name
             @ [] # extract_elements (render_doc post) element_name"
proof -
  from assms(1) have p: "list_all wf_node pre" and q: "list_all wf_node post" by simp_all
  show ?thesis
    by (simp add: extract_elements_doc [OF assms] extract_elements_doc [OF p assms(2)]
          extract_elements_doc [OF q assms(2)] attrs_of_Nil)
qed

subsection \<open>Where a match starts\<close>

lemma match_here_suffix: "match_here p s = Some (g, t) \<Longrightarrow> suffix t s"
proof (induction p arbitrary: s g t)
  case Nil
  then show ?case by simp
next
  case (Cons i p)
  show ?case
  proof (cases i)
    case (Lit l)
    with Cons.prems have "match_here p (drop (length l) s) = Some (g, t)"
      by (simp split: if_splits)
    then have "suffix t (drop (length l) s)" by (rule Cons.IH)
    then show ?thesis by (rule suffix_order.trans [OF _ suffix_drop])
  next
    case (Rep c lo q)
    with Cons.prems
    have "first_some (map (\<lambda>k. match_here p (drop k s)) (counts q lo (run c s))) = Some (g, t)"
      by simp
    then have "Some (g, t) \<in> set (map (\<lambda>k. match_here p (drop k s)) (counts q lo (run c s)))"
      by (rule first_some_in)
    then obtain k where "match_here p (drop k s) = Some (g, t)" by auto
    then have "suffix t (drop k s)" by (rule Cons.IH)
    then show ?thesis by (rule suffix_order.trans [OF _ suffix_drop])
  next
    case (Cap c lo q)
    with Cons.prems
    have "first_some (map (\<lambda>k. map_option (\<lambda>(g, t). (take k s # g, t)) (match_here p (drop k s)))
                        (counts q lo (run c s))) = Some (g, t)"
      by simp
    then have "Some (g, t) \<in> set (map (\<lambda>k. map_option (\<lambda>(g, t). (take k s # g, t)) (match_here p (drop k s)))
                               (counts q lo (run c s)))"
      by (rule first_some_in)
    then obtain k where "Some (g, t)
        = map_option (\<lambda>(g, t). (take k s # g, t)) (match_here p (drop k s))" by auto
    then obtain g' where "match_here p (drop k s) = Some (g', t)"
      by (cases "match_here p (drop k s)") (auto split: prod.splits)
    then have "suffix t (drop k s)" by (rule Cons.IH)
    then show ?thesis by (rule suffix_order.trans [OF _ suffix_drop])
  qed
qed

lemma scan_sound:
  "(s, g) \<in> set (scan p doc) \<Longrightarrow> suffix s doc \<and> (\<exists>t. match_here p s = Some (g, t))"
proof (induction p doc rule: scan.induct)
  case (1 p d)
  show ?case
  proof (cases "match_here p d")
    case None
    show ?thesis
    proof (cases d)
      case Nil
      with None "1.prems" show ?thesis by (simp add: scan.simps [of p "[]"])
    next
      case (Cons c d')
      with None "1.prems" have "(s, g) \<in> set (scan p d')"
        by (simp add: scan_no_match)
      with "1.IH"(1) [OF None Cons] have "suffix s d' \<and> (\<exists>t. match_here p s = Some (g, t))"
        by simp
      then show ?thesis by (auto simp: Cons intro: suffix_ConsI)
    qed
  next
    case (Some m)
    obtain g0 t0 where m: "m = (g0, t0)" by (cases m)
    from Some m have t: "suffix t0 d" by (auto dest: match_here_suffix)
    from "1.prems" Some m
    consider (here) "s = d" "g = g0"
      | (after) "length t0 < length d" "(s, g) \<in> set (scan p t0)"
      | (step) c d' where "\<not> length t0 < length d" "d = c # d'" "(s, g) \<in> set (scan p d')"
      by (auto simp: scan.simps [of p d] split: if_splits list.splits)
    then show ?thesis
    proof cases
      case here
      with Some m show ?thesis by simp
    next
      case after
      from "1.IH"(2) [OF Some m [symmetric] after(1) after(2)]
      have "suffix s t0 \<and> (\<exists>t. match_here p s = Some (g, t))" .
      with t show ?thesis by (auto intro: suffix_order.trans)
    next
      case step
      from "1.IH"(3) [OF Some m [symmetric] step(1) step(2) step(3)]
      have "suffix s d' \<and> (\<exists>t. match_here p s = Some (g, t))" .
      then show ?thesis by (auto simp: step(2) intro: suffix_ConsI)
    qed
  qed
qed

lemma element_match_start:
  assumes "match_here (element_pattern name) s = Some (g, t)"
  shows "\<exists>c rest. s = CHR ''<'' # name @ c # rest \<and> is_space c"
proof -
  let ?n = "length (CHR ''<'' # name)"
  let ?s1 = "drop ?n s"
  let ?p = "[Cap (Not CHR ''>'') 0 Lazy, Rep Space 0 Greedy, Lit ''/>'']"
  from assms have l: "take ?n s = CHR ''<'' # name"
    and f: "match_here (Rep Space 1 Greedy # ?p) ?s1 = Some (g, t)"
    by (simp_all add: element_pattern_def split: if_splits del: match_here.simps(3,4))
  from f have "counts Greedy 1 (run Space ?s1) \<noteq> []"
    by (auto dest: first_some_in)
  then have "0 < run Space ?s1" by (cases "run Space ?s1") auto
  then obtain c rest where s1: "?s1 = c # rest" and c: "is_space c"
    by (cases ?s1) (auto simp: run_def split: if_splits)
  have "s = take ?n s @ ?s1" by simp
  then have "s = CHR ''<'' # name @ c # rest" unfolding l s1 by simp
  with c show ?thesis by blast
qed

subsection \<open>Repeated attribute names\<close>

lemma fold_update_map_of:
  "map_of (fold (\<lambda>a. AList.update (p a) (q a)) xs acc)
     = map_of (rev (map (\<lambda>a. (p a, q a)) xs) @ acc)"
proof (induction xs arbitrary: acc)
  case Nil
  show ?case by simp
next
  case (Cons x xs)
  show ?case
    by (simp add: Cons.IH update_conv' map_add_def fun_eq_iff split: option.splits)
qed

lemma fold_update_distinct:
  "distinct (map fst acc) \<Longrightarrow> distinct (map fst (fold (\<lambda>a. AList.update (p a) (q a)) xs acc))"
  by (induction xs arbitrary: acc) (simp_all add: distinct_update)

lemma attrs_of_is_dict: "is_dict (attrs_of m)"
  unfolding is_dict_def attrs_of_def by (rule fold_update_distinct) simp

text \<open>
  C9. The mapping of a matched element has every attribute name once, with the value of its
  last \<^verbatim>\<open>name="value"\<close> pair; every occurrence the extractor returns is such a mapping.
  In the tally, the occurrence adds one to \<^verbatim>\<open>present\<close> of a name it contains and nothing
  otherwise, and one to \<^verbatim>\<open>non_empty\<close> when the value kept is not blank: never more than
  one. An element with \<^verbatim>\<open>a\<close> twice yields the second value.
\<close>

theorem repeated_attribute_last_wins:
  \<open>is_dict (attrs_of m)
   \<and> map_of (attrs_of m) k
       = map_of (rev (map (\<lambda>a. (group 1 a, group 2 a)) (scan attr_pattern m))) k
   \<and> list_all is_dict (extract_elements xml_content element_name)
   \<and> fs_present (lookup_default (tally_elem (attrs_of m) field_stats) k)
       = fs_present (lookup_default field_stats k) + (if has_field k (attrs_of m) then 1 else 0)
   \<and> fs_non_empty (lookup_default (tally_elem (attrs_of m) field_stats) k)
       = fs_non_empty (lookup_default field_stats k) + (if has_value k (attrs_of m) then 1 else 0)
   \<and> extract_elements ''<Trade a="1" a="2" />'' ''Trade'' = [[(''a'', ''2'')]]\<close>
proof -
  have d: "is_dict (attrs_of m)" for m by (rule attrs_of_is_dict)
  have 1: "map_of (attrs_of m) k
       = map_of (rev (map (\<lambda>a. (group 1 a, group 2 a)) (scan attr_pattern m))) k"
    by (simp add: attrs_of_def fold_update_map_of)
  have 2: "list_all is_dict (extract_elements xml_content element_name)"
    by (simp add: extract_elements_def list_all_iff d)
  from d [of m] have dd: "distinct (map fst (attrs_of m))" by (simp add: is_dict_def)
  have 3: "fs_present (lookup_default (tally_elem (attrs_of m) field_stats) k)
       = fs_present (lookup_default field_stats k) + (if has_field k (attrs_of m) then 1 else 0)"
    by (simp add: tally_elem_lookup [OF dd] has_field_iff count_value_present
          split: option.splits)
  have 4: "fs_non_empty (lookup_default (tally_elem (attrs_of m) field_stats) k)
       = fs_non_empty (lookup_default field_stats k) + (if has_value k (attrs_of m) then 1 else 0)"
    by (simp add: tally_elem_lookup [OF dd] has_value_def count_value_non_empty
          split: option.splits)
  have 5: \<open>extract_elements ''<Trade a="1" a="2" />'' ''Trade'' = [[(''a'', ''2'')]]\<close>
    by code_simp
  from d [of m] 1 2 3 4 5 show ?thesis by blast
qed

text \<open>
  C10. For a requested name of word characters, every match the extractor reports starts at
  a place of the document that reads \<^verbatim>\<open><\<close>, the name, and a white-space character. So no
  match starts where the name is followed by a further character of a longer name, and the
  occurrences returned are one per match.
\<close>

theorem match_needs_space_after_name:
  assumes "list_all is_word element_name"
    and "(s, g) \<in> set (scan (element_pattern element_name) xml_content)"
  shows "suffix s xml_content
         \<and> (\<exists>c rest. s = CHR ''<'' # element_name @ c # rest \<and> is_space c)
         \<and> (\<forall>ext. ext \<noteq> [] \<and> \<not> is_space (hd ext) \<longrightarrow>
                \<not> prefix (CHR ''<'' # element_name @ ext) s)
         \<and> length (extract_elements xml_content element_name)
             = length (scan (element_pattern element_name) xml_content)"
proof -
  from scan_sound [OF assms(2)]
  obtain t where 1: "suffix s xml_content"
    and m: "match_here (element_pattern element_name) s = Some (g, t)" by blast
  from element_match_start [OF m]
  obtain c rest where s: "s = CHR ''<'' # element_name @ c # rest" and c: "is_space c" by blast
  have 3: "\<not> prefix (CHR ''<'' # element_name @ ext) s"
    if "ext \<noteq> [] \<and> \<not> is_space (hd ext)" for ext
  proof
    assume "prefix (CHR ''<'' # element_name @ ext) s"
    then have "prefix ext (c # rest)" by (simp add: s)
    with that have "hd ext = c" by (cases ext) auto
    with that c show False by simp
  qed
  have 4: "length (extract_elements xml_content element_name)
             = length (scan (element_pattern element_name) xml_content)"
    by (simp add: extract_elements_def)
  from 1 s c 3 4 show ?thesis by blast
qed

text \<open>A \<^verbatim>\<open>TradeConfirm\<close> element before a \<^verbatim>\<open>Trade\<close> element: only the second is matched.\<close>

theorem match_needs_space_after_name_witness:
  \<open>list_all is_word ''Trade''
   \<and> (''<Trade b="2" />'', [''b="2"''])
       \<in> set (scan (element_pattern ''Trade'') ''<TradeConfirm a="1" /><Trade b="2" />'')
   \<and> suffix ''<Trade b="2" />'' ''<TradeConfirm a="1" /><Trade b="2" />''
   \<and> \<not> prefix ''<TradeConfirm'' ''<Trade b="2" />''
   \<and> extract_elements ''<TradeConfirm a="1" /><Trade b="2" />'' ''Trade'' = [[(''b'', ''2'')]]\<close>
proof -
  have h1: "list_all is_word ''Trade''" by code_simp
  have h2: \<open>(''<Trade b="2" />'', [''b="2"''])
       \<in> set (scan (element_pattern ''Trade'') ''<TradeConfirm a="1" /><Trade b="2" />'')\<close>
    by code_simp
  have e: \<open>extract_elements ''<TradeConfirm a="1" /><Trade b="2" />'' ''Trade'' = [[(''b'', ''2'')]]\<close>
    by code_simp
  from match_needs_space_after_name [OF h1 h2]
  have \<open>suffix ''<Trade b="2" />'' ''<TradeConfirm a="1" /><Trade b="2" />''\<close>
    and \<open>\<forall>ext. ext \<noteq> [] \<and> \<not> is_space (hd ext) \<longrightarrow>
                \<not> prefix (CHR ''<'' # ''Trade'' @ ext) ''<Trade b="2" />''\<close>
    by blast+
  moreover from this(2) have \<open>\<not> prefix (CHR ''<'' # ''Trade'' @ ''Confirm'') ''<Trade b="2" />''\<close>
    by (simp add: is_space_def)
  ultimately show ?thesis using h1 h2 e by simp
qed

subsection \<open>Instances\<close>

text \<open>A document that satisfies the hypotheses of C6.\<close>

theorem extractor_count_witness:
  \<open>list_all wf_node
      [Elem ''Trade'' '' '' [(''id'', ''1'', '' ''), (''qty'', ''10'', '' '')],
       Text ''; '',
       Elem ''TradeConfirm'' '' '' [(''id'', ''7'', '''')],
       Elem ''Trade'' ''  '' []]
   \<and> list_all is_word ''Trade''
   \<and> render_doc
        [Elem ''Trade'' '' '' [(''id'', ''1'', '' ''), (''qty'', ''10'', '' '')],
         Text ''; '',
         Elem ''TradeConfirm'' '' '' [(''id'', ''7'', '''')],
         Elem ''Trade'' ''  '' []]
       = ''<Trade id="1" qty="10" />; <TradeConfirm id="7"/><Trade  />''
   \<and> length (extract_elements
                ''<Trade id="1" qty="10" />; <TradeConfirm id="7"/><Trade  />'' ''Trade'') = 2\<close>
proof -
  let ?doc = "[Elem ''Trade'' '' '' [(''id'', ''1'', '' ''), (''qty'', ''10'', '' '')],
       Text ''; '',
       Elem ''TradeConfirm'' '' '' [(''id'', ''7'', '''')],
       Elem ''Trade'' ''  '' []]"
  have h1: "list_all wf_node ?doc" by code_simp
  have h2: "list_all is_word ''Trade''" by code_simp
  have r: \<open>render_doc ?doc = ''<Trade id="1" qty="10" />; <TradeConfirm id="7"/><Trade  />''\<close>
    by code_simp
  have n: "length (filter (named ''Trade'') ?doc) = 2" by code_simp
  from extractor_count [OF h1 h2] have "length (extract_elements (render_doc ?doc) ''Trade'') = 2"
    unfolding n by blast
  with h1 h2 r show ?thesis by simp
qed

text \<open>
  C6, as stated, fails: of three \<^verbatim>\<open>Trade\<close> elements, the first without white space after
  the name and the second with a closing angle bracket in a value, only the third is
  returned.
\<close>

theorem extractor_count_counterexample:
  \<open>render_doc
      [Elem ''Trade'' '''' [],
       Elem ''Trade'' '' '' [(''a'', ''>'', '' '')],
       Elem ''Trade'' '' '' [(''b'', ''1'', '' '')]]
     = ''<Trade/><Trade a=">" /><Trade b="1" />''
   \<and> length (filter (named ''Trade'')
        [Elem ''Trade'' '''' [],
         Elem ''Trade'' '' '' [(''a'', ''>'', '' '')],
         Elem ''Trade'' '' '' [(''b'', ''1'', '' '')]]) = 3
   \<and> extract_elements ''<Trade/><Trade a=">" /><Trade b="1" />'' ''Trade'' = [[(''b'', ''1'')]]\<close>
  by code_simp

text \<open>A document that satisfies the hypotheses of C7.\<close>

theorem bare_element_empty_mapping_witness:
  \<open>list_all wf_node ([Elem ''Trade'' '' '' [(''a'', ''1'', '' '')]] @ Elem ''Trade'' '' '' [] # [Text ''.''])
   \<and> list_all is_word ''Trade''
   \<and> render_doc ([Elem ''Trade'' '' '' [(''a'', ''1'', '' '')]] @ Elem ''Trade'' '' '' [] # [Text ''.''])
       = ''<Trade a="1" /><Trade />.''
   \<and> extract_elements ''<Trade a="1" /><Trade />.'' ''Trade'' = [[(''a'', ''1'')], []]\<close>
proof -
  let ?pre = "[Elem ''Trade'' '' '' [(''a'', ''1'', '' '')]]"
  let ?post = "[Text ''.'']"
  have h1: "list_all wf_node (?pre @ Elem ''Trade'' '' '' [] # ?post)" by code_simp
  have h2: "list_all is_word ''Trade''" by code_simp
  have r: \<open>render_doc (?pre @ Elem ''Trade'' '' '' [] # ?post) = ''<Trade a="1" /><Trade />.''\<close>
    by code_simp
  have a: "extract_elements (render_doc ?pre) ''Trade'' = [[(''a'', ''1'')]]" by code_simp
  have b: "extract_elements (render_doc ?post) ''Trade'' = []" by code_simp
  from bare_element_empty_mapping [OF h1 h2]
  have "extract_elements (render_doc (?pre @ Elem ''Trade'' '' '' [] # ?post)) ''Trade''
          = [[(''a'', ''1'')], []]"
    unfolding a b by simp
  with h1 h2 r show ?thesis by simp
qed

text \<open>
  C7, as stated, fails: the element \<^verbatim>\<open><Trade/>\<close> has no attribute and is not returned.
\<close>

theorem bare_element_counterexample:
  "render_doc [Elem ''Trade'' '''' []] = ''<Trade/>''
   \<and> filter (named ''Trade'') [Elem ''Trade'' '''' []] = [Elem ''Trade'' '''' []]
   \<and> extract_elements ''<Trade/>'' ''Trade'' = []"
  by code_simp

text \<open>
  Both patterns consume at least one character, so the branch of \<^const>\<open>scan\<close> for an
  empty match is never taken.
\<close>

lemma element_match_consumes:
  assumes "match_here (element_pattern t) s = Some (g, r)"
  shows "length r < length s"
proof -
  from assms have n: "s \<noteq> []"
    by (cases s) (auto simp: element_pattern_def)
  from assms have "match_here (tl (element_pattern t)) (drop (Suc (length t)) s) = Some (g, r)"
    by (simp add: element_pattern_def split: if_splits del: match_here.simps(3,4))
  then have "suffix r (drop (Suc (length t)) s)" by (rule match_here_suffix)
  then have "length r \<le> length s - Suc (length t)"
    by (metis suffix_length_le length_drop)
  with n show ?thesis by (cases s) auto
qed

lemma attr_match_consumes:
  assumes "match_here attr_pattern s = Some (g, r)"
  shows "length r < length s"
proof -
  let ?p = "[Lit [CHR ''='', CHR 0x22], Cap (Not (CHR 0x22)) 0 Greedy, Lit [CHR 0x22]]"
  let ?F = "\<lambda>k. map_option (\<lambda>(g, t). (take k s # g, t)) (match_here ?p (drop k s))"
  from assms have "first_some (map ?F (counts Greedy 1 (run Word s))) = Some (g, r)"
    unfolding attr_pattern_def match_here.simps(4) .
  then have "Some (g, r) \<in> set (map ?F (counts Greedy 1 (run Word s)))"
    by (rule first_some_in)
  then obtain k where k: "1 \<le> k" "k \<le> run Word s" and e: "Some (g, r) = ?F k"
    by auto
  from e obtain g' where "match_here ?p (drop k s) = Some (g', r)"
    by (cases "match_here ?p (drop k s)") (auto split: prod.splits)
  then have "suffix r (drop k s)" by (rule match_here_suffix)
  then have "length r \<le> length s - k" by (metis suffix_length_le length_drop)
  moreover have "run Word s \<le> length s" by (simp add: run_def length_takeWhile_le)
  ultimately show ?thesis using k by simp
qed

text \<open>
  A match has one group for every capturing item of its pattern: one for the element
  pattern, two for the attribute pattern. So \<^verbatim>\<open>group(1)\<close> and \<^verbatim>\<open>group(2)\<close> exist wherever
  the script reads them.
\<close>

lemma match_here_groups:
  "match_here p s = Some (g, t) \<Longrightarrow>
   length g = length (filter (\<lambda>i. case i of Cap c lo q \<Rightarrow> True | _ \<Rightarrow> False) p)"
proof (induction p arbitrary: s g t)
  case Nil
  then show ?case by simp
next
  case (Cons i p)
  show ?case
  proof (cases i)
    case (Lit l)
    with Cons.prems have "match_here p (drop (length l) s) = Some (g, t)"
      by (simp split: if_splits)
    from Cons.IH [OF this] show ?thesis by (simp add: Lit)
  next
    case (Rep c lo q)
    with Cons.prems
    have "first_some (map (\<lambda>k. match_here p (drop k s)) (counts q lo (run c s))) = Some (g, t)"
      by simp
    then have "Some (g, t) \<in> set (map (\<lambda>k. match_here p (drop k s)) (counts q lo (run c s)))"
      by (rule first_some_in)
    then obtain k where "match_here p (drop k s) = Some (g, t)" by auto
    from Cons.IH [OF this] show ?thesis by (simp add: Rep)
  next
    case (Cap c lo q)
    with Cons.prems
    have "first_some (map (\<lambda>k. map_option (\<lambda>(g, t). (take k s # g, t)) (match_here p (drop k s)))
                        (counts q lo (run c s))) = Some (g, t)"
      by simp
    then have "Some (g, t) \<in> set (map (\<lambda>k. map_option (\<lambda>(g, t). (take k s # g, t)) (match_here p (drop k s)))
                               (counts q lo (run c s)))"
      by (rule first_some_in)
    then obtain k where "Some (g, t)
        = map_option (\<lambda>(g, t). (take k s # g, t)) (match_here p (drop k s))" by auto
    then obtain g' where "match_here p (drop k s) = Some (g', t)" and "g = take k s # g'"
      by (cases "match_here p (drop k s)") (auto split: prod.splits)
    from Cons.IH [OF this(1)] this(2) show ?thesis by (simp add: Cap)
  qed
qed

lemma scan_groups:
  assumes "(s, g) \<in> set (scan p doc)"
  shows "length g = length (filter (\<lambda>i. case i of Cap c lo q \<Rightarrow> True | _ \<Rightarrow> False) p)"
  using scan_sound [OF assms] match_here_groups by blast

lemma element_groups:
  "(s, g) \<in> set (scan (element_pattern t) doc) \<Longrightarrow> length g = 1"
  by (drule scan_groups) (simp add: element_pattern_def)

lemma attr_groups:
  "(s, g) \<in> set (scan attr_pattern doc) \<Longrightarrow> length g = 2"
  by (drule scan_groups) (simp add: attr_pattern_def)

end
